theory Spec2Isabelle
  imports Main "HOL-Library.Word"
begin

section \<open>The environment: file system objects, errors, effects\<close>

text \<open>
  The program (\<^verbatim>\<open>main.go\<close>) walks two directory trees and compares the entries whose
  names collide.  It only observes the file system through \<^verbatim>\<open>os.ReadDir\<close>,
  \<^verbatim>\<open>DirEntry.Name/IsDir/Info\<close>, \<^verbatim>\<open>os.Open\<close>, \<^verbatim>\<open>File.Read\<close> and \<^verbatim>\<open>File.Close\<close>.
  The model gives each of these a result that may be an error, records every call in a
  log, and turns \<^verbatim>\<open>os.Exit\<close> into a result value.
\<close>

type_synonym byte = "8 word"

definition chunkSize :: nat where
  "chunkSize = 64000"

definition exitStatusCopyUnsafe :: nat where
  "exitStatusCopyUnsafe = 3"

definition exitStatusOtherErrors :: nat where
  "exitStatusOtherErrors = 4"

text \<open>An error value is \<^verbatim>\<open>io.EOF\<close> or any other error, identified by its message.\<close>

datatype error = EOF | OSError string

text \<open>
  What is found behind a non-directory entry.  \<open>Size\<close> is what \<^verbatim>\<open>Info().Size()\<close>
  reports (for a regular file the length of its content; for a symbolic link the length
  of the link, while opening follows the link).  \<open>content\<close> are the bytes that reading
  delivers; when they are used up, reading reports \<^verbatim>\<open>io.EOF\<close>, or the error
  \<open>read_err\<close> when there is one.  \<open>read_sizes\<close> says how the bytes arrive: its
  \<open>i\<close>-th number is the most that the \<open>i\<close>-th \<^verbatim>\<open>Read\<close> of the opened file delivers
  (a short read, as a pipe or a network file system gives), and the reads after the
  last number deliver all that the buffer takes, as a local regular file does.  The
  other fields say whether \<^verbatim>\<open>Info\<close>, \<^verbatim>\<open>os.Open\<close> and \<^verbatim>\<open>Close\<close> fail.
\<close>

record fobj =
  Size :: int
  info_err :: "string option"
  open_err :: "string option"
  content :: "byte list"
  read_sizes :: "nat list"
  read_err :: "string option"
  close_err :: "string option"

text \<open>
  A tree: a directory with the entries \<^verbatim>\<open>os.ReadDir\<close> returns for it (in that order), a
  directory that cannot be listed (or a root path that does not exist), or a
  non-directory.  Symbolic links are non-directories: the walk never follows them.
\<close>

datatype node = Dir "entry list" | Unlistable string | File fobj
and entry = Entry (Name: string) (target: node)

datatype op = ReadDir | Info | Open | Read | Close

text \<open>
  One observable action: a call of the \<^verbatim>\<open>os\<close> package on a path with the error it
  returned (\<open>None\<close> for \<^verbatim>\<open>nil\<close>), a line on standard output, or the message of
  \<^verbatim>\<open>log.Fatal\<close>.
\<close>

datatype event =
    IO op string "error option"
  | Println string
  | LogFatal "error option" "error option"

text \<open>
  The state threaded through the program: the slice behind \<^verbatim>\<open>notesPtr\<close> and the
  log of actions performed so far.
\<close>

record state =
  all_notes :: "string list"
  log :: "event list"

text \<open>A call returns a value, or the process exits with a status.\<close>

datatype 'a outcome = Return 'a | Exit nat

definition record_event :: "event \<Rightarrow> state \<Rightarrow> state" where
  "record_event e st = st\<lparr>log := log st @ [e]\<rparr>"

definition reportErrorAndExit :: "string \<Rightarrow> state \<Rightarrow> 'a outcome \<times> state" where
  "reportErrorAndExit err st = (Exit exitStatusOtherErrors, record_event (Println err) st)"

section \<open>Reading files\<close>

text \<open>
  An open file: its name, the bytes not yet read, the sizes of the reads to come, and
  how reading and closing end.
\<close>

record handle =
  hname :: string
  unread :: "byte list"
  hsizes :: "nat list"
  hread_err :: "string option"
  hclose_err :: "string option"

text \<open>
  \<^verbatim>\<open>os.Open\<close>.  Opening a directory succeeds, and reading from it fails.
\<close>

definition os_Open :: "string \<Rightarrow> node \<Rightarrow> state \<Rightarrow> (string + handle) \<times> state" where
  "os_Open name nd st =
     (case nd of
        File f \<Rightarrow>
          (case open_err f of
             Some err \<Rightarrow> (Inl err, record_event (IO Open name (Some (OSError err))) st)
           | None \<Rightarrow>
               (Inr \<lparr>hname = name, unread = content f, hsizes = read_sizes f,
                     hread_err = read_err f, hclose_err = close_err f\<rparr>,
                record_event (IO Open name None) st))
      | Dir es \<Rightarrow>
          (Inr \<lparr>hname = name, unread = [], hsizes = [],
                hread_err = Some (''read '' @ name @ '': is a directory''),
                hclose_err = None\<rparr>,
           record_event (IO Open name None) st)
      | Unlistable err \<Rightarrow> (Inl err, record_event (IO Open name (Some (OSError err))) st))"

text \<open>\<^verbatim>\<open>make([]byte, n)\<close>: a buffer of \<open>n\<close> zero bytes.\<close>

definition make_bytes :: "nat \<Rightarrow> byte list" where
  "make_bytes n = replicate n 0"

text \<open>
  \<^verbatim>\<open>f.Read(b)\<close>, one \<^verbatim>\<open>read(2)\<close>: it copies the next \<open>n\<close> bytes to the front of
  \<open>b\<close> and leaves the rest of \<open>b\<close> as it was; with nothing remaining it leaves \<open>b\<close>
  alone and returns \<^verbatim>\<open>io.EOF\<close> (or the read error).  The count \<open>n\<close> is at most the
  length of \<open>b\<close> and the number of bytes remaining, and it is at least 1 when both are:
  \<open>read_limit\<close> is what the sizes of the file allow the read at hand, the whole buffer
  when they say nothing.  The result is the buffer, the count, the error and the
  advanced file.
\<close>

definition read_limit :: "handle \<Rightarrow> byte list \<Rightarrow> nat" where
  "read_limit h b =
     (case hsizes h of [] \<Rightarrow> length b | k # ks \<Rightarrow> min (length b) (max 1 k))"

definition file_Read ::
  "handle \<Rightarrow> byte list \<Rightarrow> state \<Rightarrow> (byte list \<times> nat \<times> error option \<times> handle) \<times> state" where
  "file_Read h b st =
     (if unread h = [] then
        (let err = (case hread_err h of None \<Rightarrow> EOF | Some e \<Rightarrow> OSError e)
         in ((b, 0, Some err, h), record_event (IO Read (hname h) (Some err)) st))
      else
        (let n = min (read_limit h b) (length (unread h))
         in ((take n (unread h) @ drop n b, n, None,
              h\<lparr>unread := drop n (unread h), hsizes := tl (hsizes h)\<rparr>),
             record_event (IO Read (hname h) None) st)))"


definition file_Close :: "handle \<Rightarrow> state \<Rightarrow> string option \<times> state" where
  "file_Close h st =
     (hclose_err h, record_event (IO Close (hname h) (map_option OSError (hclose_err h))) st)"

text \<open>
  The \<^verbatim>\<open>for\<close> loop of \<^verbatim>\<open>IsFileContentIdentical\<close> (lines 57 to 77).  The counts
  returned by \<^verbatim>\<open>Read\<close> are dropped, as in the source; \<^verbatim>\<open>bytes.Equal\<close> compares the two
  whole buffers.  \<^verbatim>\<open>log.Fatal\<close> exits with status 1.
\<close>

function readLoop :: "handle \<Rightarrow> handle \<Rightarrow> state \<Rightarrow> bool outcome \<times> state" where
  "readLoop f1 f2 st =
     (case file_Read f1 (make_bytes chunkSize) st of
        ((b1, n1, err1, f1'), st1) \<Rightarrow>
          (case file_Read f2 (make_bytes chunkSize) st1 of
             ((b2, n2, err2, f2'), st2) \<Rightarrow>
               if err1 \<noteq> None \<or> err2 \<noteq> None then
                 (if err1 = Some EOF \<and> err2 = Some EOF then (Return True, st2)
                  else if err1 = Some EOF \<or> err2 = Some EOF then (Return False, st2)
                  else (Exit 1, record_event (LogFatal err1 err2) st2))
               else if b1 \<noteq> b2 then (Return False, st2)
               else readLoop f1' f2' st2))"
  by pat_completeness auto
termination
proof (relation "measure (\<lambda>(f1, f2, st). length (unread f1))")
  show "wf (measure (\<lambda>(f1, f2, st). length (unread f1)))"
    by simp
next
  fix f1 f2 :: handle and st x1 st1 b1 x2 n1 x3 err1 f1' x4 st2 b2 x5 n2 x6 err2 f2'
  assume r: "(x1, st1) = file_Read f1 (make_bytes chunkSize) st"
    and "(b1, x2) = x1" "(n1, x3) = x2" "(err1, f1') = x3"
    and e: "\<not> (err1 \<noteq> None \<or> err2 \<noteq> None)"
  then have "file_Read f1 (make_bytes chunkSize) st = ((b1, n1, err1, f1'), st1)"
    by simp
  with e have "unread f1 \<noteq> []" and
    "unread f1' = drop (min (read_limit f1 (make_bytes chunkSize)) (length (unread f1))) (unread f1)"
    by (auto simp: file_Read_def Let_def split: if_splits)
  moreover have "0 < read_limit f1 (make_bytes chunkSize)"
    by (cases "hsizes f1") (simp_all add: read_limit_def make_bytes_def chunkSize_def)
  ultimately have "length (unread f1') < length (unread f1)"
    by (cases "unread f1") simp_all
  then show "((f1', f2', st2), (f1, f2, st)) \<in> measure (\<lambda>(f1, f2, st). length (unread f1))"
    by simp
qed

text \<open>
  \<^verbatim>\<open>IsFileContentIdentical\<close>.  The two deferred \<^verbatim>\<open>Close\<close> calls run when the loop
  returns, the second file first; they do not run when the process exits.
\<close>

definition IsFileContentIdentical ::
  "string \<Rightarrow> node \<Rightarrow> string \<Rightarrow> node \<Rightarrow> state \<Rightarrow> bool outcome \<times> state" where
  "IsFileContentIdentical file1 nd1 file2 nd2 st =
     (case os_Open file1 nd1 st of
        (Inl err, st1) \<Rightarrow> reportErrorAndExit err st1
      | (Inr f1, st1) \<Rightarrow>
          (case os_Open file2 nd2 st1 of
             (Inl err, st2) \<Rightarrow> reportErrorAndExit err st2
           | (Inr f2, st2) \<Rightarrow>
               (case readLoop f1 f2 st2 of
                  (Exit n, st3) \<Rightarrow> (Exit n, st3)
                | (Return res, st3) \<Rightarrow>
                    (case file_Close f2 st3 of
                       (Some err, st4) \<Rightarrow> reportErrorAndExit err st4
                     | (None, st4) \<Rightarrow>
                         (case file_Close f1 st4 of
                            (Some err, st5) \<Rightarrow> reportErrorAndExit err st5
                          | (None, st5) \<Rightarrow> (Return res, st5))))))"

declare readLoop.simps [simp del]

section \<open>Walking the two trees\<close>

text \<open>
  \<^verbatim>\<open>filepath.Join\<close> of a directory path and an entry name, on a system whose
  separator is the slash: the two are joined by a separator, from the first that is not
  empty, and the result is cleaned.  \<^verbatim>\<open>filepath.Clean\<close> drops empty elements and
  \<^verbatim>\<open>.\<close> elements, lets a \<^verbatim>\<open>..\<close> element remove the element before it (at the start
  of a rooted path it is dropped, at the start of another path it is kept), and gives
  \<^verbatim>\<open>.\<close> for an empty result.
\<close>

fun split_path :: "string \<Rightarrow> string list" where
  "split_path [] = [[]]"
| "split_path (c # cs) =
     (if c = CHR ''/'' then [] # split_path cs
      else (case split_path cs of [] \<Rightarrow> [[c]] | x # xs \<Rightarrow> (c # x) # xs))"

fun clean_elems :: "bool \<Rightarrow> string list \<Rightarrow> string list \<Rightarrow> string list" where
  "clean_elems rooted out [] = rev out"
| "clean_elems rooted out (x # xs) =
     (if x = [] \<or> x = ''.'' then clean_elems rooted out xs
      else if x = ''..'' then
        (if out \<noteq> [] \<and> hd out \<noteq> ''..'' then clean_elems rooted (tl out) xs
         else if \<not> rooted then clean_elems rooted (x # out) xs
         else clean_elems rooted out xs)
      else clean_elems rooted (x # out) xs)"

fun join_elems :: "string list \<Rightarrow> string" where
  "join_elems [] = []"
| "join_elems [x] = x"
| "join_elems (x # y # ys) = x @ ''/'' @ join_elems (y # ys)"

definition filepath_Clean :: "string \<Rightarrow> string" where
  "filepath_Clean path =
     (if path = [] then ''.''
      else
        (let rooted = (hd path = CHR ''/'');
             out = (if rooted then ''/'' else []) @
                   join_elems (clean_elems rooted [] (split_path path))
         in if out = [] then ''.'' else out))"

definition filepath_Join :: "string \<Rightarrow> string \<Rightarrow> string" where
  "filepath_Join dir name =
     (if dir \<noteq> [] then filepath_Clean (dir @ ''/'' @ name)
      else if name \<noteq> [] then filepath_Clean name
      else [])"

definition IsDir :: "entry \<Rightarrow> bool" where
  "IsDir e = (case target e of File f \<Rightarrow> False | _ \<Rightarrow> True)"

text \<open>
  \<^verbatim>\<open>entry.Info()\<close>, reduced to the error and \<^verbatim>\<open>Size()\<close>.  The program asks only
  for non-directories; the size of a directory is system-dependent and is given as 0.
\<close>

definition entry_Info :: "string \<Rightarrow> entry \<Rightarrow> state \<Rightarrow> (string + int) \<times> state" where
  "entry_Info path e st =
     (case target e of
        File f \<Rightarrow>
          (case info_err f of
             Some err \<Rightarrow> (Inl err, record_event (IO Info path (Some (OSError err))) st)
           | None \<Rightarrow> (Inr (Size f), record_event (IO Info path None) st))
      | _ \<Rightarrow> (Inr 0, record_event (IO Info path None) st))"

definition os_ReadDir :: "string \<Rightarrow> node \<Rightarrow> state \<Rightarrow> (string + entry list) \<times> state" where
  "os_ReadDir path nd st =
     (case nd of
        Dir es \<Rightarrow> (Inr es, record_event (IO ReadDir path None) st)
      | Unlistable err \<Rightarrow> (Inl err, record_event (IO ReadDir path (Some (OSError err))) st)
      | File f \<Rightarrow>
          (Inl (''open '' @ path @ '': not a directory''),
           record_event
             (IO ReadDir path (Some (OSError (''open '' @ path @ '': not a directory'')))) st))"

definition readDirIntoMap ::
  "string \<Rightarrow> node \<Rightarrow> state \<Rightarrow> (string \<rightharpoonup> entry) outcome \<times> state" where
  "readDirIntoMap path nd st =
     (case os_ReadDir path nd st of
        (Inl err, st1) \<Rightarrow> reportErrorAndExit err st1
      | (Inr entries, st1) \<Rightarrow>
          (Return (fold (\<lambda>entry res. res(Name entry \<mapsto> entry)) entries Map.empty), st1))"

text \<open>The three messages, as \<^verbatim>\<open>fmt.Sprintf\<close> formats them.\<close>

definition quoted :: "string \<Rightarrow> string" where
  "quoted s = CHR 0x27 # s @ [CHR 0x27]"

definition msg_types :: "string \<Rightarrow> string \<Rightarrow> string" where
  "msg_types sourcePath destPath =
     quoted sourcePath @ '' and '' @ quoted destPath @ '' have different types''"

definition msg_sizes :: "string \<Rightarrow> string \<Rightarrow> string" where
  "msg_sizes sourcePath destPath =
     quoted sourcePath @ '' and '' @ quoted destPath @ '' have different sizes''"

definition msg_content :: "string \<Rightarrow> string \<Rightarrow> string" where
  "msg_content sourcePath destPath =
     quoted sourcePath @ '' and '' @ quoted destPath @ '' content differs''"

text \<open>
  \<^verbatim>\<open>*notesPtr = append(*notesPtr, msg); fmt.Println(msg)\<close>
\<close>

definition add_note :: "string \<Rightarrow> state \<Rightarrow> state" where
  "add_note msg st = st\<lparr>all_notes := all_notes st @ [msg], log := log st @ [Println msg]\<rparr>"

text \<open>
  \<^verbatim>\<open>checkDir\<close>, with the tree found at each of the two paths: the caller hands over
  the trees of the entries it found, which is what listing the two paths again gives as
  long as the file system does not change.  \<open>checkDir_loop\<close> is the \<^verbatim>\<open>for\<close> loop
  over the source entries (line 87) and \<open>checkDir_body\<close> one iteration of it (lines 88
  to 117).
\<close>

function checkDir :: "string \<Rightarrow> node \<Rightarrow> string \<Rightarrow> node \<Rightarrow> state \<Rightarrow> unit outcome \<times> state"
  and checkDir_loop ::
    "string \<Rightarrow> string \<Rightarrow> (string \<rightharpoonup> entry) \<Rightarrow> entry list \<Rightarrow> state \<Rightarrow> unit outcome \<times> state"
  and checkDir_body ::
    "string \<Rightarrow> string \<Rightarrow> (string \<rightharpoonup> entry) \<Rightarrow> entry \<Rightarrow> state \<Rightarrow> unit outcome \<times> state"
where
  "checkDir sourceDir src destDir dst st =
     (case readDirIntoMap destDir dst st of
        (Exit n, st1) \<Rightarrow> (Exit n, st1)
      | (Return destEntries, st1) \<Rightarrow>
          (case os_ReadDir sourceDir src st1 of
             (Inl err, st2) \<Rightarrow> reportErrorAndExit err st2
           | (Inr entries, st2) \<Rightarrow> checkDir_loop sourceDir destDir destEntries entries st2))"
| "checkDir_loop sourceDir destDir destEntries [] st = (Return (), st)"
| "checkDir_loop sourceDir destDir destEntries (sourceEntry # entries) st =
     (case checkDir_body sourceDir destDir destEntries sourceEntry st of
        (Exit n, st1) \<Rightarrow> (Exit n, st1)
      | (Return u, st1) \<Rightarrow> checkDir_loop sourceDir destDir destEntries entries st1)"
| "checkDir_body sourceDir destDir destEntries sourceEntry st =
     (case destEntries (Name sourceEntry) of
        None \<Rightarrow> (Return (), st)
      | Some destEntry \<Rightarrow>
          (let sourcePath = filepath_Join sourceDir (Name sourceEntry);
               destPath = filepath_Join destDir (Name destEntry)
           in if IsDir sourceEntry \<and> IsDir destEntry then
                checkDir sourcePath (target sourceEntry) destPath (target destEntry) st
              else if IsDir sourceEntry \<noteq> IsDir destEntry then
                (Return (), add_note (msg_types sourcePath destPath) st)
              else
                (case entry_Info sourcePath sourceEntry st of
                   (Inl err, st1) \<Rightarrow> reportErrorAndExit err st1
                 | (Inr sourceSize, st1) \<Rightarrow>
                     (case entry_Info destPath destEntry st1 of
                        (Inl err, st2) \<Rightarrow> reportErrorAndExit err st2
                      | (Inr destSize, st2) \<Rightarrow>
                          if sourceSize \<noteq> destSize then
                            (Return (), add_note (msg_sizes sourcePath destPath) st2)
                          else
                            (case IsFileContentIdentical sourcePath (target sourceEntry)
                                    destPath (target destEntry) st2 of
                               (Exit n, st3) \<Rightarrow> (Exit n, st3)
                             | (Return identical, st3) \<Rightarrow>
                                 if \<not> identical then
                                   (Return (), add_note (msg_content sourcePath destPath) st3)
                                 else (Return (), st3))))))"
  by pat_completeness auto
termination
proof (relation "measure (\<lambda>x. case x of
        Inl (sourceDir, src, destDir, dst, st) \<Rightarrow> 3 * size src
      | Inr (Inl (sourceDir, destDir, destEntries, entries, st)) \<Rightarrow>
          3 * size_list size entries + 1
      | Inr (Inr (sourceDir, destDir, destEntries, sourceEntry, st)) \<Rightarrow>
          3 * size sourceEntry - 1)",
    goal_cases)
  case 1
  show ?case by simp
next
  case (2 sourceDir src destDir dst st x1 st1 destEntries x2 st2 entries)
  then have "src = Dir entries"
    by (auto simp: os_ReadDir_def split: node.splits)
  then show ?case by simp
next
  case (3 sourceDir destDir destEntries sourceEntry entries st)
  then show ?case by simp
next
  case (4 sourceDir destDir destEntries sourceEntry entries st x1 st1 u)
  then show ?case by simp
next
  case (5 sourceDir destDir destEntries sourceEntry st destEntry sourcePath destPath)
  have "size (target sourceEntry) < size sourceEntry"
    by (cases sourceEntry) simp
  then show ?case by simp
qed

declare checkDir.simps [simp del] checkDir_body.simps [simp del]

text \<open>
  \<^verbatim>\<open>precopyCheck\<close>: the verdict, with the tree found at each of the two paths.
  \<open>notes\<close> starts as the empty slice.
\<close>

definition precopyCheck ::
  "string \<Rightarrow> node \<Rightarrow> string \<Rightarrow> node \<Rightarrow> state \<Rightarrow> unit outcome \<times> state" where
  "precopyCheck sourceDir src destDir dst st =
     (case checkDir sourceDir src destDir dst (st\<lparr>all_notes := []\<rparr>) of
        (Exit n, st1) \<Rightarrow> (Exit n, st1)
      | (Return u, st1) \<Rightarrow>
          if length (all_notes st1) = 0 then
            (Return (), record_event (Println ''Safe to copy'') st1)
          else
            (Exit exitStatusCopyUnsafe, record_event (Println ''It may be unsafe'') st1))"

section \<open>Notions used in the statements and proofs\<close>

text \<open>
  A state to start from: no notes and an empty log.  Every operation only adds to the
  state: it appends notes and events.  \<open>extend\<close> names the state after such additions.
\<close>

definition empty_state :: state where
  "empty_state = \<lparr>all_notes = [], log = []\<rparr>"

definition extend :: "state \<Rightarrow> string list \<Rightarrow> event list \<Rightarrow> state" where
  "extend st ns evs = st\<lparr>all_notes := all_notes st @ ns, log := log st @ evs\<rparr>"

text \<open>
  A local regular file with the given bytes, on which every operation succeeds and
  every read fills the buffer as far as the bytes go; and the files that can be opened,
  read to the end and closed.
\<close>

definition regular_file :: "byte list \<Rightarrow> fobj" where
  "regular_file bs =
     \<lparr>Size = int (length bs), info_err = None, open_err = None, content = bs,
      read_sizes = [], read_err = None, close_err = None\<rparr>"

definition readable :: "fobj \<Rightarrow> bool" where
  "readable f \<longleftrightarrow> open_err f = None \<and> read_err f = None \<and> close_err f = None"

text \<open>
  The three kinds of note.  A note is about a relative path \<open>rel\<close> (a list of entry
  names below the two roots): \<open>path_of\<close> joins the names to a root, and \<open>render\<close> is
  the message for a kind and a relative path.
\<close>

datatype kind = Types | Sizes | Content

fun note_msg :: "kind \<Rightarrow> string \<Rightarrow> string \<Rightarrow> string" where
  "note_msg Types sourcePath destPath = msg_types sourcePath destPath"
| "note_msg Sizes sourcePath destPath = msg_sizes sourcePath destPath"
| "note_msg Content sourcePath destPath = msg_content sourcePath destPath"

definition path_of :: "string \<Rightarrow> string list \<Rightarrow> string" where
  "path_of root rel = foldl filepath_Join root rel"

definition render :: "string \<Rightarrow> string \<Rightarrow> kind \<times> string list \<Rightarrow> string" where
  "render a b item = note_msg (fst item) (path_of a (snd item)) (path_of b (snd item))"

text \<open>\<open>present nd rel\<close>: the tree \<open>nd\<close> has an entry at the relative path \<open>rel\<close>.\<close>

fun present :: "node \<Rightarrow> string list \<Rightarrow> bool" where
  "present nd [] = True"
| "present (Dir es) (x # xs) = (\<exists>e \<in> set es. Name e = x \<and> present (target e) xs)"
| "present (Unlistable err) (x # xs) = False"
| "present (File f) (x # xs) = False"

text \<open>A note about an entry found in both trees, below the two roots.\<close>

definition about_collision :: "string \<Rightarrow> node \<Rightarrow> string \<Rightarrow> node \<Rightarrow> string \<Rightarrow> bool" where
  "about_collision sourceDir src destDir dst n \<longleftrightarrow>
     (\<exists>k rel. rel \<noteq> [] \<and> present src rel \<and> present dst rel \<and>
        n = note_msg k (path_of sourceDir rel) (path_of destDir rel))"

text \<open>The same for one iteration: a note about the source entry or something below it.\<close>

definition pair_note ::
  "string \<Rightarrow> string \<Rightarrow> (string \<rightharpoonup> entry) \<Rightarrow> entry \<Rightarrow> string \<Rightarrow> bool" where
  "pair_note a b m e n \<longleftrightarrow>
     (\<exists>d k rel. m (Name e) = Some d \<and> present (target e) rel \<and> present (target d) rel \<and>
        n = note_msg k (path_of a (Name e # rel)) (path_of b (Name e # rel)))"

text \<open>The map that \<^verbatim>\<open>readDirIntoMap\<close> builds, and what every such map satisfies.\<close>

definition entries_map :: "entry list \<Rightarrow> (string \<rightharpoonup> entry)" where
  "entries_map es = fold (\<lambda>entry res. res(Name entry \<mapsto> entry)) es Map.empty"

definition keyed :: "(string \<rightharpoonup> entry) \<Rightarrow> bool" where
  "keyed m \<longleftrightarrow> (\<forall>k d. m k = Some d \<longrightarrow> Name d = k)"

text \<open>Induction predicates: the notes of a walk are about collisions.\<close>

definition body_ok :: "entry \<Rightarrow> bool" where
  "body_ok e \<longleftrightarrow>
     (\<forall>a b m st r st'. keyed m \<longrightarrow> checkDir_body a b m e st = (r, st') \<longrightarrow>
        (\<exists>ns. all_notes st' = all_notes st @ ns \<and> (\<forall>n \<in> set ns. pair_note a b m e n)))"

definition dir_ok :: "node \<Rightarrow> bool" where
  "dir_ok src \<longleftrightarrow>
     (\<forall>a b dst st r st'. checkDir a src b dst st = (r, st') \<longrightarrow>
        (\<exists>ns. all_notes st' = all_notes st @ ns \<and>
           (\<forall>n \<in> set ns. about_collision a src b dst n)))"

text \<open>
  A directory as \<^verbatim>\<open>os.ReadDir\<close> returns it has every name once, at every level.
\<close>

primrec distinct_names :: "node \<Rightarrow> bool" and distinct_names_entry :: "entry \<Rightarrow> bool" where
  "distinct_names (Dir es) = (distinct (map Name es) \<and> list_all distinct_names_entry es)"
| "distinct_names (Unlistable err) = True"
| "distinct_names (File f) = True"
| "distinct_names_entry (Entry x t) = distinct_names t"

text \<open>
  The divergences of two trees, as kinds with relative paths, in the order of the walk
  and for a walk that no error stops.  \<open>files_divergence\<close> is the verdict on two
  non-directories.
\<close>

definition files_divergence :: "string \<Rightarrow> node \<Rightarrow> string \<Rightarrow> node \<Rightarrow> kind option" where
  "files_divergence sourcePath s destPath d =
     (case (s, d) of
        (File sf, File df) \<Rightarrow>
          if Size sf \<noteq> Size df then Some Sizes
          else if fst (IsFileContentIdentical sourcePath s destPath d empty_state) = Return False
          then Some Content else None
      | _ \<Rightarrow> None)"

fun divergences :: "string \<Rightarrow> node \<Rightarrow> string \<Rightarrow> node \<Rightarrow> (kind \<times> string list) list"
  and entry_divergences ::
    "string \<Rightarrow> entry \<Rightarrow> string \<Rightarrow> (string \<rightharpoonup> entry) \<Rightarrow> (kind \<times> string list) list"
where
  "divergences a (Dir es) b dst =
     (case dst of
        Dir ds \<Rightarrow> concat (map (\<lambda>e. entry_divergences a e b (entries_map ds)) es)
      | _ \<Rightarrow> [])"
| "divergences a (Unlistable err) b dst = []"
| "divergences a (File f) b dst = []"
| "entry_divergences a (Entry x t) b m =
     (case m x of
        None \<Rightarrow> []
      | Some d \<Rightarrow>
          if IsDir (Entry x t) \<and> IsDir d then
            map (\<lambda>item. (fst item, x # snd item))
              (divergences (filepath_Join a x) t (filepath_Join b x) (target d))
          else if IsDir (Entry x t) \<noteq> IsDir d then [(Types, [x])]
          else (case files_divergence (filepath_Join a x) t (filepath_Join b x) (target d) of
                  None \<Rightarrow> []
                | Some k \<Rightarrow> [(k, [x])]))"

text \<open>Induction predicates: the notes of a walk that returns are its divergences.\<close>

definition body_items :: "entry \<Rightarrow> bool" where
  "body_items e \<longleftrightarrow>
     (\<forall>a b m st u st'. keyed m \<longrightarrow> checkDir_body a b m e st = (Return u, st') \<longrightarrow>
        all_notes st' = all_notes st @ map (render a b) (entry_divergences a e b m))"

definition dir_items :: "node \<Rightarrow> bool" where
  "dir_items src \<longleftrightarrow>
     (\<forall>a b dst st u st'. checkDir a src b dst st = (Return u, st') \<longrightarrow>
        all_notes st' = all_notes st @ map (render a b) (divergences a src b dst))"

text \<open>
  A listing that failed, and the shape of a run with respect to such failures: either
  no listing failed, or the run exited with \<^verbatim>\<open>exitStatusOtherErrors\<close> and the failed
  listing and the printed error are the last two events.
\<close>

definition listing_failed :: "event \<Rightarrow> bool" where
  "listing_failed e \<longleftrightarrow> (case e of IO ReadDir p (Some err) \<Rightarrow> True | _ \<Rightarrow> False)"

definition stops_at_failed_listing :: "unit outcome \<Rightarrow> event list \<Rightarrow> bool" where
  "stops_at_failed_listing r evs \<longleftrightarrow>
     \<not> list_ex listing_failed evs \<or>
     (r = Exit exitStatusOtherErrors \<and>
      (\<exists>pre p err msg. evs = pre @ [IO ReadDir p (Some err), Println msg] \<and>
         \<not> list_ex listing_failed pre))"

definition body_stops :: "entry \<Rightarrow> bool" where
  "body_stops e \<longleftrightarrow>
     (\<forall>a b m st r st'. checkDir_body a b m e st = (r, st') \<longrightarrow>
        (\<exists>evs. log st' = log st @ evs \<and> stops_at_failed_listing r evs))"

definition dir_stops :: "node \<Rightarrow> bool" where
  "dir_stops src \<longleftrightarrow>
     (\<forall>a b dst st r st'. checkDir a src b dst st = (r, st') \<longrightarrow>
        (\<exists>evs. log st' = log st @ evs \<and> stops_at_failed_listing r evs))"

text \<open>
  \<open>meets_unlistable src dst\<close>: the two trees have, at the two roots or at a relative
  path that is a directory in both trees all the way down, a pair of which one cannot be
  listed (for the roots: is no directory).  These are the pairs that \<^verbatim>\<open>checkDir\<close> is
  called on; the destination entry is the one that \<^verbatim>\<open>readDirIntoMap\<close> keeps for the
  name.
\<close>

fun meets_unlistable :: "node \<Rightarrow> node \<Rightarrow> bool"
  and entry_meets_unlistable :: "entry \<Rightarrow> (string \<rightharpoonup> entry) \<Rightarrow> bool"
where
  "meets_unlistable (Dir es) dst =
     (case dst of
        Dir ds \<Rightarrow> list_ex (\<lambda>e. entry_meets_unlistable e (entries_map ds)) es
      | _ \<Rightarrow> True)"
| "meets_unlistable (Unlistable err) dst = True"
| "meets_unlistable (File f) dst = True"
| "entry_meets_unlistable (Entry x t) m =
     (case m x of
        None \<Rightarrow> False
      | Some d \<Rightarrow> IsDir (Entry x t) \<and> IsDir d \<and> meets_unlistable t (target d))"

text \<open>No file of the tree ends its reads with an error other than end-of-data.\<close>

primrec no_read_errors :: "node \<Rightarrow> bool" and no_read_errors_entry :: "entry \<Rightarrow> bool" where
  "no_read_errors (Dir es) = list_all no_read_errors_entry es"
| "no_read_errors (Unlistable err) = True"
| "no_read_errors (File f) = (read_err f = None)"
| "no_read_errors_entry (Entry x t) = no_read_errors t"

text \<open>No operation on a file of the tree fails.\<close>

primrec faultless :: "node \<Rightarrow> bool" and faultless_entry :: "entry \<Rightarrow> bool" where
  "faultless (Dir es) = list_all faultless_entry es"
| "faultless (Unlistable err) = True"
| "faultless (File f) = (info_err f = None \<and> readable f)"
| "faultless_entry (Entry x t) = faultless t"

text \<open>
  Induction predicates: a walk over a pair that cannot be listed does not return; and
  a walk exits with \<^verbatim>\<open>exitStatusOtherErrors\<close> or, through \<^verbatim>\<open>log.Fatal\<close>, with 1, the
  latter only after a read error.
\<close>

definition body_aborts :: "entry \<Rightarrow> bool" where
  "body_aborts e \<longleftrightarrow>
     (\<forall>a b m st. entry_meets_unlistable e m \<longrightarrow>
        (\<exists>n. fst (checkDir_body a b m e st) = Exit n))"

definition dir_aborts :: "node \<Rightarrow> bool" where
  "dir_aborts src \<longleftrightarrow>
     (\<forall>a b dst st. meets_unlistable src dst \<longrightarrow>
        (\<exists>n. fst (checkDir a src b dst st) = Exit n))"

definition exit_status_ok :: "bool \<Rightarrow> nat \<Rightarrow> bool" where
  "exit_status_ok clean n \<longleftrightarrow>
     (n = exitStatusOtherErrors \<or> n = 1) \<and> (clean \<longrightarrow> n = exitStatusOtherErrors)"

definition body_status :: "entry \<Rightarrow> bool" where
  "body_status e \<longleftrightarrow>
     (\<forall>a b m st n. fst (checkDir_body a b m e st) = Exit n \<longrightarrow>
        exit_status_ok
          (no_read_errors_entry e \<and> (\<forall>k d. m k = Some d \<longrightarrow> no_read_errors_entry d)) n)"

definition dir_status :: "node \<Rightarrow> bool" where
  "dir_status src \<longleftrightarrow>
     (\<forall>a b dst st n. fst (checkDir a src b dst st) = Exit n \<longrightarrow>
        exit_status_ok (no_read_errors src \<and> no_read_errors dst) n)"

text \<open>
  Induction predicates: over trees in which no operation on a file fails, a walk exits
  only after a listing that failed.
\<close>

definition body_faults :: "entry \<Rightarrow> bool" where
  "body_faults e \<longleftrightarrow>
     (\<forall>a b m st n st'. faultless_entry e \<longrightarrow> (\<forall>k d. m k = Some d \<longrightarrow> faultless_entry d) \<longrightarrow>
        checkDir_body a b m e st = (Exit n, st') \<longrightarrow>
        list_ex listing_failed (drop (length (log st)) (log st')))"

definition dir_faults :: "node \<Rightarrow> bool" where
  "dir_faults src \<longleftrightarrow>
     (\<forall>a b dst st n st'. faultless src \<longrightarrow> faultless dst \<longrightarrow>
        checkDir a src b dst st = (Exit n, st') \<longrightarrow>
        list_ex listing_failed (drop (length (log st)) (log st')))"

text \<open>
  Induction predicates: a walk has a result and additions that do not depend on the
  state it starts from.
\<close>

definition body_extends :: "entry \<Rightarrow> bool" where
  "body_extends e \<longleftrightarrow>
     (\<forall>a b m. \<exists>r ns evs. \<forall>st. checkDir_body a b m e st = (r, extend st ns evs))"

definition dir_extends :: "node \<Rightarrow> bool" where
  "dir_extends src \<longleftrightarrow>
     (\<forall>a b dst. \<exists>r ns evs. \<forall>st. checkDir a src b dst st = (r, extend st ns evs))"

text \<open>
  Induction predicates: when a walk returns, the walk in the other direction returns
  too and has the same divergences.
\<close>

definition sym_body :: "entry \<Rightarrow> bool" where
  "sym_body e \<longleftrightarrow>
     (\<forall>a b d m m' st st'. distinct_names_entry e \<longrightarrow> distinct_names_entry d \<longrightarrow>
        m (Name e) = Some d \<longrightarrow> m' (Name d) = Some e \<longrightarrow> Name d = Name e \<longrightarrow>
        fst (checkDir_body a b m e st) = Return () \<longrightarrow>
        fst (checkDir_body b a m' d st') = Return () \<and>
        set (entry_divergences a e b m) = set (entry_divergences b d a m'))"

definition sym_dir :: "node \<Rightarrow> bool" where
  "sym_dir src \<longleftrightarrow>
     (\<forall>a b dst st st'. distinct_names src \<longrightarrow> distinct_names dst \<longrightarrow>
        fst (checkDir a src b dst st) = Return () \<longrightarrow>
        fst (checkDir b dst a src st') = Return () \<and>
        set (divergences a src b dst) = set (divergences b dst a src))"

section \<open>Operations only extend the state\<close>

lemma extend_simps [simp]:
  "all_notes (extend st ns evs) = all_notes st @ ns"
  "log (extend st ns evs) = log st @ evs"
  "extend (extend st ns evs) ns' evs' = extend st (ns @ ns') (evs @ evs')"
  "extend st [] [] = st"
  by (simp_all add: extend_def)

lemma extend_empty_state [simp]:
  "all_notes empty_state = []" "log empty_state = []"
  by (simp_all add: empty_state_def)

lemma extend_eq_iff [simp]:
  "extend st ns evs = extend st ns' evs' \<longleftrightarrow> ns = ns' \<and> evs = evs'"
proof
  assume "extend st ns evs = extend st ns' evs'"
  then have "all_notes (extend st ns evs) = all_notes (extend st ns' evs')"
    and "log (extend st ns evs) = log (extend st ns' evs')"
    by simp_all
  then show "ns = ns' \<and> evs = evs'" by simp
qed simp

lemma record_event_extend: "record_event e st = extend st [] [e]"
  by (simp add: record_event_def extend_def)

lemma add_note_extend: "add_note msg st = extend st [msg] [Println msg]"
  by (simp add: add_note_def extend_def)

lemma reportErrorAndExit_extend:
  "reportErrorAndExit err st = (Exit exitStatusOtherErrors, extend st [] [Println err])"
  by (simp add: reportErrorAndExit_def record_event_extend)

lemma os_Open_extend: "\<exists>r evs. \<forall>st. os_Open name nd st = (r, extend st [] evs)"
proof (cases nd)
  case (File f)
  then show ?thesis
    by (cases "open_err f") (simp_all add: os_Open_def record_event_extend)
qed (simp_all add: os_Open_def record_event_extend)

lemma file_Read_extend: "\<exists>r evs. \<forall>st. file_Read h b st = (r, extend st [] evs)"
  by (cases "unread h = []") (simp_all add: file_Read_def record_event_extend Let_def)

lemma file_Read_advances:
  assumes "file_Read h b st = ((b', n, None, h'), st')" and "b \<noteq> []"
  shows "length (unread h') < length (unread h)"
proof -
  have "0 < read_limit h b"
    using assms(2) by (cases "hsizes h") (simp_all add: read_limit_def)
  moreover from assms(1) have "unread h \<noteq> []"
    and "unread h' = drop (min (read_limit h b) (length (unread h))) (unread h)"
    by (auto simp: file_Read_def Let_def split: if_splits)
  ultimately show ?thesis
    by (cases "unread h") simp_all
qed

lemma file_Read_hread_err:
  "file_Read h b st = ((b', n, err, h'), st') \<Longrightarrow> hread_err h' = hread_err h"
  by (auto simp: file_Read_def Let_def split: if_splits)

lemma file_Read_error:
  "file_Read h b st = ((b', n, Some err, h'), st') \<Longrightarrow>
   err = EOF \<and> hread_err h = None \<or> (\<exists>e. err = OSError e \<and> hread_err h = Some e)"
  by (auto simp: file_Read_def Let_def split: if_splits option.splits)

lemma make_bytes_chunkSize: "make_bytes chunkSize \<noteq> []"
  by (simp add: make_bytes_def chunkSize_def)

lemma file_Close_extend: "\<exists>r evs. \<forall>st. file_Close h st = (r, extend st [] evs)"
  by (simp add: file_Close_def record_event_extend)

lemma readLoop_extend_aux:
  "length (unread f1) = k \<Longrightarrow> \<exists>r evs. \<forall>st. readLoop f1 f2 st = (r, extend st [] evs)"
proof (induction k arbitrary: f1 f2 rule: less_induct)
  case (less k)
  obtain b1 n1 err1 f1' e1 where
    r1: "\<And>st. file_Read f1 (make_bytes chunkSize) st = ((b1, n1, err1, f1'), extend st [] e1)"
    using file_Read_extend [of f1 "make_bytes chunkSize"] by (metis prod_cases4)
  obtain b2 n2 err2 f2' e2 where
    r2: "\<And>st. file_Read f2 (make_bytes chunkSize) st = ((b2, n2, err2, f2'), extend st [] e2)"
    using file_Read_extend [of f2 "make_bytes chunkSize"] by (metis prod_cases4)
  show ?case
  proof (cases "err1 = None \<and> err2 = None \<and> b1 = b2")
    case True
    have "length (unread f1') < length (unread f1)"
      using r1 [of empty_state] True file_Read_advances make_bytes_chunkSize by blast
    then obtain r evs where "\<And>st. readLoop f1' f2' st = (r, extend st [] evs)"
      using less by blast
    with True have "\<And>st. readLoop f1 f2 st = (r, extend st [] (e1 @ e2 @ evs))"
      by (subst readLoop.simps) (simp add: r1 r2)
    then show ?thesis by blast
  next
    case False
    have "\<exists>r evs. \<forall>st. readLoop f1 f2 st = (r, extend st [] (e1 @ e2 @ evs))"
      using False
      by (subst readLoop.simps) (auto simp: r1 r2 record_event_extend)
    then show ?thesis by blast
  qed
qed

lemma readLoop_extend: "\<exists>r evs. \<forall>st. readLoop f1 f2 st = (r, extend st [] evs)"
  using readLoop_extend_aux by blast

lemma IsFileContentIdentical_extend:
  "\<exists>r evs. \<forall>st. IsFileContentIdentical file1 nd1 file2 nd2 st = (r, extend st [] evs)"
proof -
  obtain r1 e1 where o1: "\<And>st. os_Open file1 nd1 st = (r1, extend st [] e1)"
    using os_Open_extend by blast
  obtain r2 e2 where o2: "\<And>st. os_Open file2 nd2 st = (r2, extend st [] e2)"
    using os_Open_extend by blast
  show ?thesis
  proof (cases r1)
    case (Inl err)
    then show ?thesis
      by (simp add: IsFileContentIdentical_def o1 reportErrorAndExit_extend)
  next
    case f1: (Inr f1)
    show ?thesis
    proof (cases r2)
      case (Inl err)
      then show ?thesis
        by (simp add: IsFileContentIdentical_def o1 o2 f1 reportErrorAndExit_extend)
    next
      case f2: (Inr f2)
      obtain r3 e3 where l: "\<And>st. readLoop f1 f2 st = (r3, extend st [] e3)"
        using readLoop_extend by blast
      obtain c2 e4 where c2: "\<And>st. file_Close f2 st = (c2, extend st [] e4)"
        using file_Close_extend by blast
      obtain c1 e5 where c1: "\<And>st. file_Close f1 st = (c1, extend st [] e5)"
        using file_Close_extend by blast
      show ?thesis
        by (cases r3; cases c2; cases c1)
          (simp_all add: IsFileContentIdentical_def o1 o2 f1 f2 l c1 c2 reportErrorAndExit_extend)
    qed
  qed
qed

section \<open>Comparing two files\<close>

lemma readLoop_same_content:
  "unread f1 = unread f2 \<Longrightarrow> hsizes f1 = hsizes f2 \<Longrightarrow>
   hread_err f1 = None \<Longrightarrow> hread_err f2 = None \<Longrightarrow>
   fst (readLoop f1 f2 st) = Return True"
proof (induction f1 f2 st rule: readLoop.induct)
  case (1 f1 f2 st)
  show ?case
  proof (cases "unread f1 = []")
    case True
    with "1.prems" show ?thesis
      by (subst readLoop.simps) (simp add: file_Read_def)
  next
    case False
    let ?n = "min (read_limit f1 (make_bytes chunkSize)) (length (unread f1))"
    let ?b = "take ?n (unread f1) @ drop ?n (make_bytes chunkSize)"
    let ?f1 = "f1\<lparr>unread := drop ?n (unread f1), hsizes := tl (hsizes f1)\<rparr>"
    let ?f2 = "f2\<lparr>unread := drop ?n (unread f2), hsizes := tl (hsizes f2)\<rparr>"
    let ?st1 = "record_event (IO Read (hname f1) None) st"
    let ?st2 = "record_event (IO Read (hname f2) None) ?st1"
    have r1: "file_Read f1 (make_bytes chunkSize) st = ((?b, ?n, None, ?f1), ?st1)"
      using False by (simp add: file_Read_def Let_def)
    have r2: "file_Read f2 (make_bytes chunkSize) ?st1 = ((?b, ?n, None, ?f2), ?st2)"
      using False "1.prems" by (simp add: file_Read_def Let_def read_limit_def)
    have "fst (readLoop ?f1 ?f2 ?st2) = Return True"
      using "1.prems" by (intro "1.IH" [OF r1 [symmetric] refl refl refl r2 [symmetric] refl refl refl]) simp_all
    then show ?thesis
      by (subst readLoop.simps) (simp add: r1 r2)
  qed
qed

text \<open>
  What holds of two files with identical bytes: when every operation on them succeeds
  and their reads deliver the bytes in pieces of the same sizes (as for two local
  regular files, and for a file and itself), \<^verbatim>\<open>IsFileContentIdentical\<close> returns true,
  whatever the common length.
\<close>

lemma identical_content_same_reads:
  assumes "readable f1" and "readable f2" and "content f1 = content f2"
    and "read_sizes f1 = read_sizes f2"
  shows "fst (IsFileContentIdentical file1 (File f1) file2 (File f2) st) = Return True"
proof -
  let ?h1 = "\<lparr>hname = file1, unread = content f1, hsizes = read_sizes f1,
              hread_err = read_err f1, hclose_err = close_err f1\<rparr>"
  let ?h2 = "\<lparr>hname = file2, unread = content f2, hsizes = read_sizes f2,
              hread_err = read_err f2, hclose_err = close_err f2\<rparr>"
  let ?st2 = "record_event (IO Open file2 None) (record_event (IO Open file1 None) st)"
  have "fst (readLoop ?h1 ?h2 ?st2) = Return True"
    using assms by (intro readLoop_same_content) (simp_all add: readable_def)
  then obtain st3 where "readLoop ?h1 ?h2 ?st2 = (Return True, st3)"
    by (cases "readLoop ?h1 ?h2 ?st2") simp
  with assms show ?thesis
    by (simp add: IsFileContentIdentical_def os_Open_def file_Close_def readable_def)
qed

lemma identical_content_example:
  "fst (IsFileContentIdentical ''a'' (File (regular_file [104, 105]))
          ''a'' (File (regular_file [104, 105])) empty_state) = Return True \<and>
   fst (IsFileContentIdentical ''a'' (File (regular_file [104, 105]))
          ''b'' (File (regular_file [104, 105])) empty_state) = Return True"
proof -
  have r: "readable (regular_file [104, 105])"
    by (simp add: readable_def regular_file_def)
  show ?thesis
    using identical_content_same_reads [OF r r refl refl, of "''a''" "''a''" empty_state]
      identical_content_same_reads [OF r r refl refl, of "''a''" "''b''" empty_state]
    by simp
qed

lemma zero_tail: "replicate 63999 (0::byte) = 0 # replicate 63998 0"
proof -
  have "replicate (Suc 63998) (0::byte) = 0 # replicate 63998 0"
    by (rule replicate_Suc)
  then show ?thesis by simp
qed

text \<open>
  C7: \<^verbatim>\<open>filesEqual\<close> is true for two files with identical bytes, whatever their
  common length.  The code does not do this when a read comes back short: the byte
  counts of the two reads are dropped and the whole buffers are compared, so for two
  files with the same two bytes 97, 98, of which the first delivers one byte to its
  first read and the second both, the buffers differ after the first round and the
  result is false.
\<close>

theorem IsFileContentIdentical_short_read_false:
  "fst (IsFileContentIdentical
          ''f1'' (File ((regular_file [97, 98])\<lparr>read_sizes := [1]\<rparr>))
          ''f2'' (File (regular_file [97, 98])) empty_state) = Return False"
  by (simp add: IsFileContentIdentical_def os_Open_def regular_file_def readLoop.simps
      file_Read_def read_limit_def file_Close_def make_bytes_def chunkSize_def zero_tail)

text \<open>
  C1: for two files whose lengths differ, \<^verbatim>\<open>filesEqual\<close> is false.  The code does not
  do this: the byte counts of the two reads are dropped and the whole buffers are
  compared, so a file of the one byte 97 and a file of the two bytes 97, 0 fill the two
  zeroed buffers alike, both reach the end at the next read, and the result is true.
\<close>

theorem IsFileContentIdentical_unequal_lengths_true:
  "fst (IsFileContentIdentical ''f1'' (File (regular_file [97]))
          ''f2'' (File (regular_file [97, 0])) empty_state) = Return True"
  by (simp add: IsFileContentIdentical_def os_Open_def regular_file_def readLoop.simps
      file_Read_def read_limit_def file_Close_def make_bytes_def chunkSize_def zero_tail)

text \<open>
  C2: a read error other than end-of-data on either stream is fatal, whatever the state
  of the other stream.  The code does not do this when the other stream is at its end:
  the test for one end-of-data comes before \<^verbatim>\<open>log.Fatal\<close>, and the result is false.
\<close>

theorem IsFileContentIdentical_read_error_not_fatal:
  "fst (IsFileContentIdentical
          ''f1'' (File ((regular_file [])\<lparr>read_err := Some ''input/output error''\<rparr>))
          ''f2'' (File (regular_file [])) empty_state) = Return False"
  by (simp add: IsFileContentIdentical_def os_Open_def regular_file_def readLoop.simps
      file_Read_def read_limit_def file_Close_def make_bytes_def chunkSize_def Let_def)

lemma readLoop_sym_aux:
  "length (unread f1) = k \<Longrightarrow> fst (readLoop f1 f2 st) = fst (readLoop f2 f1 st')"
proof (induction k arbitrary: f1 f2 st st' rule: less_induct)
  case (less k)
  obtain b1 n1 err1 f1' e1 where
    r1: "\<And>st. file_Read f1 (make_bytes chunkSize) st = ((b1, n1, err1, f1'), extend st [] e1)"
    using file_Read_extend [of f1 "make_bytes chunkSize"] by (metis prod_cases4)
  obtain b2 n2 err2 f2' e2 where
    r2: "\<And>st. file_Read f2 (make_bytes chunkSize) st = ((b2, n2, err2, f2'), extend st [] e2)"
    using file_Read_extend [of f2 "make_bytes chunkSize"] by (metis prod_cases4)
  show ?case
  proof (cases "err1 = None \<and> err2 = None \<and> b1 = b2")
    case True
    have "length (unread f1') < length (unread f1)"
      using r1 [of empty_state] True file_Read_advances make_bytes_chunkSize by blast
    with less have "fst (readLoop f1' f2' (extend st [] (e1 @ e2))) =
        fst (readLoop f2' f1' (extend st' [] (e2 @ e1)))"
      by blast
    with True show ?thesis
      by (subst readLoop.simps, subst (2) readLoop.simps) (simp add: r1 r2)
  next
    case False
    then show ?thesis
      by (subst readLoop.simps, subst (2) readLoop.simps) (auto simp: r1 r2)
  qed
qed

lemma readLoop_sym: "fst (readLoop f1 f2 st) = fst (readLoop f2 f1 st')"
  using readLoop_sym_aux by blast

lemma IsFileContentIdentical_sym:
  "fst (IsFileContentIdentical file1 nd1 file2 nd2 st) =
   fst (IsFileContentIdentical file2 nd2 file1 nd1 st')"
proof -
  obtain r1 e1 where o1: "\<And>st. os_Open file1 nd1 st = (r1, extend st [] e1)"
    using os_Open_extend by blast
  obtain r2 e2 where o2: "\<And>st. os_Open file2 nd2 st = (r2, extend st [] e2)"
    using os_Open_extend by blast
  show ?thesis
  proof (cases r1)
    case (Inl err)
    then show ?thesis
      by (cases r2) (simp_all add: IsFileContentIdentical_def o1 o2 reportErrorAndExit_extend)
  next
    case f1: (Inr f1)
    show ?thesis
    proof (cases r2)
      case (Inl err)
      then show ?thesis
        by (simp add: IsFileContentIdentical_def o1 o2 f1 reportErrorAndExit_extend)
    next
      case f2: (Inr f2)
      obtain r3 e3 where l: "\<And>st. readLoop f1 f2 st = (r3, extend st [] e3)"
        using readLoop_extend by blast
      obtain r3' e3' where l': "\<And>st. readLoop f2 f1 st = (r3', extend st [] e3')"
        using readLoop_extend by blast
      have r3: "r3' = r3"
        using readLoop_sym [of f1 f2 empty_state empty_state] by (simp add: l l')
      obtain c2 e4 where c2: "\<And>st. file_Close f2 st = (c2, extend st [] e4)"
        using file_Close_extend by blast
      obtain c1 e5 where c1: "\<And>st. file_Close f1 st = (c1, extend st [] e5)"
        using file_Close_extend by blast
      show ?thesis
        by (cases r3; cases c2; cases c1)
          (simp_all add: IsFileContentIdentical_def o1 o2 f1 f2 l l' r3 c1 c2 reportErrorAndExit_extend)
    qed
  qed
qed

lemma IsFileContentIdentical_notes:
  "IsFileContentIdentical p1 n1 p2 n2 st = (r, st') \<Longrightarrow> all_notes st' = all_notes st"
  using IsFileContentIdentical_extend [of p1 n1 p2 n2] by auto

lemma IsFileContentIdentical_result:
  "IsFileContentIdentical p1 n1 p2 n2 st = (r, st') \<Longrightarrow>
   fst (IsFileContentIdentical p1 n1 p2 n2 st0) = r"
  using IsFileContentIdentical_extend [of p1 n1 p2 n2] by (metis fst_conv)

section \<open>One colliding pair\<close>





section \<open>Notes are about collisions\<close>

lemma path_of_Cons: "path_of root (x # rel) = path_of (filepath_Join root x) rel"
  by (simp add: path_of_def)

lemma fold_entries_lookup:
  "fold (\<lambda>entry res. res(Name entry \<mapsto> entry)) es m0 k = Some d \<Longrightarrow>
   (d \<in> set es \<and> Name d = k) \<or> m0 k = Some d"
proof (induction es arbitrary: m0)
  case Nil
  then show ?case by simp
next
  case (Cons a es)
  from Cons.prems have "fold (\<lambda>entry res. res(Name entry \<mapsto> entry)) es (m0(Name a \<mapsto> a)) k = Some d"
    by (simp only: fold.simps comp_apply)
  then have "(d \<in> set es \<and> Name d = k) \<or> (m0(Name a \<mapsto> a)) k = Some d"
    by (rule Cons.IH)
  then show ?case
    by (cases "k = Name a") auto
qed

lemma readDirIntoMap_cases:
  assumes "readDirIntoMap path nd st = (r, st')"
  shows "all_notes st' = all_notes st \<and>
     ((\<exists>n. r = Exit n) \<or>
      (\<exists>es m. nd = Dir es \<and> r = Return m \<and> (\<forall>k d. m k = Some d \<longrightarrow> d \<in> set es \<and> Name d = k)))"
proof (cases nd)
  case (Dir es)
  with assms show ?thesis
    using fold_entries_lookup [of es Map.empty]
    by (auto simp: readDirIntoMap_def os_ReadDir_def record_event_def)
qed (use assms in \<open>auto simp: readDirIntoMap_def os_ReadDir_def reportErrorAndExit_def record_event_def\<close>)

lemma body_notes_nondir:
  assumes "checkDir_body a b m e st = (r, st')" and "m (Name e) = Some d" and "Name d = Name e"
    and "\<not> (IsDir e \<and> IsDir d)"
  shows "\<exists>ns. all_notes st' = all_notes st @ ns \<and> length ns \<le> 1 \<and> (\<forall>n \<in> set ns. pair_note a b m e n)"
proof -
  have t: "pair_note a b m e (note_msg k (filepath_Join a (Name e)) (filepath_Join b (Name e)))" for k
    unfolding pair_note_def using assms(2)
    by (intro exI [of _ d] exI [of _ k] exI [of _ "[]"]) (simp add: path_of_def)
  show ?thesis
  proof (cases "IsDir e \<noteq> IsDir d")
    case True
    with assms t [of Types] show ?thesis
      by (auto simp: checkDir_body.simps Let_def add_note_def)
  next
    case False
    with assms t [of Sizes] t [of Content] show ?thesis
      by (auto simp: checkDir_body.simps Let_def add_note_def entry_Info_def
          reportErrorAndExit_def record_event_def
          dest!: IsFileContentIdentical_notes
          split: prod.splits sum.splits outcome.splits if_splits node.splits option.splits)
  qed
qed

lemma loop_notes:
  assumes "\<forall>e \<in> set es. body_ok e" and "keyed m"
    and "checkDir_loop a b m es st = (r, st')"
  shows "\<exists>ns. all_notes st' = all_notes st @ ns \<and>
           (\<forall>n \<in> set ns. \<exists>e \<in> set es. pair_note a b m e n)"
  using assms
proof (induction es arbitrary: st)
  case Nil
  then show ?case by simp
next
  case (Cons e es)
  obtain r1 st1 where b: "checkDir_body a b m e st = (r1, st1)"
    by (cases "checkDir_body a b m e st")
  with Cons.prems obtain ns1 where
    n1: "all_notes st1 = all_notes st @ ns1" "\<forall>n \<in> set ns1. pair_note a b m e n"
    unfolding body_ok_def by (metis list.set_intros(1))
  show ?case
  proof (cases r1)
    case (Exit k)
    with Cons.prems b have "st' = st1" by simp
    with n1 show ?thesis by auto
  next
    case (Return u)
    with Cons.prems b have "checkDir_loop a b m es st1 = (r, st')" by simp
    with Cons obtain ns2 where
      "all_notes st' = all_notes st1 @ ns2" "\<forall>n \<in> set ns2. \<exists>e \<in> set es. pair_note a b m e n"
      by (metis list.set_intros(2))
    with n1 have "all_notes st' = all_notes st @ (ns1 @ ns2)"
      and "\<forall>n \<in> set (ns1 @ ns2). \<exists>e' \<in> set (e # es). pair_note a b m e' n"
      by auto
    then show ?thesis by blast
  qed
qed

lemma dir_ok_Dir:
  assumes "\<And>e. e \<in> set es \<Longrightarrow> body_ok e"
  shows "dir_ok (Dir es)"
  unfolding dir_ok_def
proof (intro allI impI)
  fix a b dst st r st'
  assume run: "checkDir a (Dir es) b dst st = (r, st')"
  obtain r1 st1 where m: "readDirIntoMap b dst st = (r1, st1)"
    by (cases "readDirIntoMap b dst st")
  from readDirIntoMap_cases [OF m] have n1: "all_notes st1 = all_notes st"
    and c: "(\<exists>n. r1 = Exit n) \<or>
      (\<exists>ds m. dst = Dir ds \<and> r1 = Return m \<and> (\<forall>k d. m k = Some d \<longrightarrow> d \<in> set ds \<and> Name d = k))"
    by simp_all
  from c show "\<exists>ns. all_notes st' = all_notes st @ ns \<and>
      (\<forall>n \<in> set ns. about_collision a (Dir es) b dst n)"
  proof
    assume "\<exists>n. r1 = Exit n"
    with run m n1 have "all_notes st' = all_notes st"
      by (auto simp: checkDir.simps)
    then show ?thesis by simp
  next
    assume "\<exists>ds m. dst = Dir ds \<and> r1 = Return m \<and> (\<forall>k d. m k = Some d \<longrightarrow> d \<in> set ds \<and> Name d = k)"
    then obtain ds mp where d: "dst = Dir ds" "r1 = Return mp"
      and mp: "\<And>k d. mp k = Some d \<Longrightarrow> d \<in> set ds \<and> Name d = k"
      by blast
    let ?st2 = "record_event (IO ReadDir a None) st1"
    from run m d have "checkDir_loop a b mp es ?st2 = (r, st')"
      by (simp add: checkDir.simps os_ReadDir_def)
    moreover have "keyed mp" using mp by (simp add: keyed_def)
    ultimately obtain ns where ns: "all_notes st' = all_notes ?st2 @ ns"
      "\<forall>n \<in> set ns. \<exists>e \<in> set es. pair_note a b mp e n"
      using loop_notes assms by blast
    have "about_collision a (Dir es) b dst n" if "n \<in> set ns" for n
    proof -
      from ns that obtain e d' k rel where e: "e \<in> set es" "mp (Name e) = Some d'"
        "present (target e) rel" "present (target d') rel"
        "n = note_msg k (path_of a (Name e # rel)) (path_of b (Name e # rel))"
        unfolding pair_note_def by blast
      from mp [OF e(2)] e d have "present (Dir es) (Name e # rel)" "present dst (Name e # rel)"
        by auto
      with e(5) show ?thesis
        unfolding about_collision_def by blast
    qed
    with ns n1 show ?thesis by (simp add: record_event_def)
  qed
qed

lemma dir_ok_other:
  assumes "\<And>es. src \<noteq> Dir es"
  shows "dir_ok src"
  unfolding dir_ok_def
proof (intro allI impI)
  fix a b dst st r st'
  assume run: "checkDir a src b dst st = (r, st')"
  obtain r1 st1 where m: "readDirIntoMap b dst st = (r1, st1)"
    by (cases "readDirIntoMap b dst st")
  from readDirIntoMap_cases [OF m] have "all_notes st1 = all_notes st" by simp
  with run m assms have "all_notes st' = all_notes st"
    by (cases src; cases r1)
      (auto simp: checkDir.simps os_ReadDir_def reportErrorAndExit_def record_event_def)
  then show "\<exists>ns. all_notes st' = all_notes st @ ns \<and>
      (\<forall>n \<in> set ns. about_collision a src b dst n)"
    by simp
qed

lemma body_ok_Entry:
  assumes "dir_ok t"
  shows "body_ok (Entry x t)"
  unfolding body_ok_def
proof (intro allI impI)
  fix a b m st r st'
  assume k: "keyed m" and run: "checkDir_body a b m (Entry x t) st = (r, st')"
  let ?e = "Entry x t"
  show "\<exists>ns. all_notes st' = all_notes st @ ns \<and> (\<forall>n \<in> set ns. pair_note a b m ?e n)"
  proof (cases "m x")
    case None
    with run have "st' = st" by (simp add: checkDir_body.simps)
    then show ?thesis by simp
  next
    case (Some d)
    with k have nd: "Name d = x" by (simp add: keyed_def)
    show ?thesis
    proof (cases "IsDir ?e \<and> IsDir d")
      case True
      with run Some nd have "checkDir (filepath_Join a x) t (filepath_Join b x) (target d) st = (r, st')"
        by (simp add: checkDir_body.simps)
      with assms obtain ns where ns: "all_notes st' = all_notes st @ ns"
        "\<forall>n \<in> set ns. about_collision (filepath_Join a x) t (filepath_Join b x) (target d) n"
        unfolding dir_ok_def by blast
      have "pair_note a b m ?e n" if "n \<in> set ns" for n
        using ns(2) that Some unfolding about_collision_def pair_note_def
        by (fastforce simp: path_of_Cons)
      with ns show ?thesis by blast
    next
      case False
      with body_notes_nondir [OF run] Some nd show ?thesis
        by fastforce
    qed
  qed
qed

lemma dir_ok_all: "dir_ok src"
  by (induction src rule: node.induct [where ?P2.0 = body_ok])
    (auto intro: dir_ok_Dir dir_ok_other body_ok_Entry)

text \<open>
  C5: every note that \<^verbatim>\<open>checkDir\<close> adds, also in a walk that an error stops, is one of
  the three messages for an entry at one relative path \<open>rel\<close> that is present in both
  trees, with the source path and the destination path of that entry.  So no note is
  about an entry present on one side only.
\<close>

theorem notes_only_for_collisions:
  assumes "checkDir sourceDir src destDir dst st = (r, st')"
  shows "\<exists>ns. all_notes st' = all_notes st @ ns \<and>
     (\<forall>n \<in> set ns. \<exists>k rel. rel \<noteq> [] \<and> present src rel \<and> present dst rel \<and>
        n = note_msg k (path_of sourceDir rel) (path_of destDir rel))"
  using assms dir_ok_all [of src] unfolding dir_ok_def about_collision_def by blast

theorem notes_only_for_collisions_witness:
  "checkDir ''s'' (Dir [Entry ''x'' (File (regular_file []))])
      ''d'' (Dir [Entry ''x'' (Dir [])]) empty_state =
     (Return (),
      empty_state\<lparr>all_notes := [msg_types (filepath_Join ''s'' ''x'') (filepath_Join ''d'' ''x'')],
       log := [IO ReadDir ''d'' None, IO ReadDir ''s'' None,
              Println (msg_types (filepath_Join ''s'' ''x'') (filepath_Join ''d'' ''x''))]\<rparr>) \<and>
   (\<exists>ns. [msg_types (filepath_Join ''s'' ''x'') (filepath_Join ''d'' ''x'')] = ns \<and>
      (\<forall>n \<in> set ns. \<exists>k rel. rel \<noteq> [] \<and>
          present (Dir [Entry ''x'' (File (regular_file []))]) rel \<and>
          present (Dir [Entry ''x'' (Dir [])]) rel \<and>
          n = note_msg k (path_of ''s'' rel) (path_of ''d'' rel)))"
proof -
  have run: "checkDir ''s'' (Dir [Entry ''x'' (File (regular_file []))])
      ''d'' (Dir [Entry ''x'' (Dir [])]) empty_state =
     (Return (),
      empty_state\<lparr>all_notes := [msg_types (filepath_Join ''s'' ''x'') (filepath_Join ''d'' ''x'')],
       log := [IO ReadDir ''d'' None, IO ReadDir ''s'' None,
              Println (msg_types (filepath_Join ''s'' ''x'') (filepath_Join ''d'' ''x''))]\<rparr>)"
    by (simp add: checkDir.simps checkDir_body.simps readDirIntoMap_def os_ReadDir_def
        record_event_def add_note_def IsDir_def empty_state_def Let_def)
  show ?thesis
    using run notes_only_for_collisions [OF run] by simp
qed

section \<open>Notes are only appended\<close>

lemma body_nondir_at_most_one:
  assumes "checkDir_body a b m e st = (r, st')" and "m (Name e) = Some d"
    and "\<not> (IsDir e \<and> IsDir d)"
  shows "\<exists>ns. all_notes st' = all_notes st @ ns \<and> length ns \<le> 1"
proof (cases "IsDir e \<noteq> IsDir d")
  case True
  with assms show ?thesis
    by (auto simp: checkDir_body.simps Let_def add_note_def)
next
  case False
  with assms show ?thesis
    by (auto simp: checkDir_body.simps Let_def add_note_def entry_Info_def
        reportErrorAndExit_def record_event_def
        dest!: IsFileContentIdentical_notes
        split: prod.splits sum.splits outcome.splits if_splits node.splits option.splits)
qed

text \<open>
  C10: \<^verbatim>\<open>checkDir\<close> only appends to the notes: the notes after a call are the notes
  before it followed by new ones.  And at one level a colliding pair gives at most one
  note: when both entries are directories the iteration is the recursive call and adds
  no note of its own; otherwise it appends at most one note.
\<close>

theorem notes_append_only:
  assumes "checkDir sourceDir src destDir dst st = (r, st')"
    and "destEntries (Name sourceEntry) = Some destEntry"
    and "checkDir_body sourceDir destDir destEntries sourceEntry st1 = (r1, st1')"
  shows "(\<exists>ns. all_notes st' = all_notes st @ ns) \<and>
     (if IsDir sourceEntry \<and> IsDir destEntry then
        (r1, st1') =
          checkDir (filepath_Join sourceDir (Name sourceEntry)) (target sourceEntry)
            (filepath_Join destDir (Name destEntry)) (target destEntry) st1
      else (\<exists>ns. all_notes st1' = all_notes st1 @ ns \<and> length ns \<le> 1))"
proof -
  have "\<exists>ns. all_notes st' = all_notes st @ ns"
    using assms(1) dir_ok_all [of src] unfolding dir_ok_def by blast
  moreover have "(r1, st1') =
      checkDir (filepath_Join sourceDir (Name sourceEntry)) (target sourceEntry)
        (filepath_Join destDir (Name destEntry)) (target destEntry) st1"
    if "IsDir sourceEntry \<and> IsDir destEntry"
    using that assms(2,3) by (simp add: checkDir_body.simps)
  moreover have "\<exists>ns. all_notes st1' = all_notes st1 @ ns \<and> length ns \<le> 1"
    if "\<not> (IsDir sourceEntry \<and> IsDir destEntry)"
    using body_nondir_at_most_one [OF assms(3,2) that] .
  ultimately show ?thesis by simp
qed

theorem notes_append_only_witness:
  "(\<exists>ns. [msg_types (filepath_Join ''s'' ''x'') (filepath_Join ''d'' ''x'')] = ns) \<and>
   (\<exists>ns. [msg_types (filepath_Join ''s'' ''x'') (filepath_Join ''d'' ''x'')] = ns \<and>
      length ns \<le> 1) \<and>
   checkDir_body ''s'' ''d'' [''y'' \<mapsto> Entry ''y'' (Dir [])] (Entry ''y'' (Dir [])) empty_state =
     checkDir (filepath_Join ''s'' ''y'') (Dir []) (filepath_Join ''d'' ''y'') (Dir [])
       empty_state"
proof -
  let ?src = "Dir [Entry ''x'' (File (regular_file []))]"
  let ?dst = "Dir [Entry ''x'' (Dir [])]"
  let ?msg = "msg_types (filepath_Join ''s'' ''x'') (filepath_Join ''d'' ''x'')"
  have run: "checkDir ''s'' ?src ''d'' ?dst empty_state =
     (Return (),
      empty_state\<lparr>all_notes := [?msg],
       log := [IO ReadDir ''d'' None, IO ReadDir ''s'' None, Println ?msg]\<rparr>)"
    by (simp add: checkDir.simps checkDir_body.simps readDirIntoMap_def os_ReadDir_def
        record_event_def add_note_def IsDir_def empty_state_def Let_def)
  have found: "[''x'' \<mapsto> Entry ''x'' (Dir [])] (Name (Entry ''x'' (File (regular_file [])))) =
     Some (Entry ''x'' (Dir []))"
    by simp
  have body: "checkDir_body ''s'' ''d'' [''x'' \<mapsto> Entry ''x'' (Dir [])]
      (Entry ''x'' (File (regular_file []))) empty_state =
     (Return (), empty_state\<lparr>all_notes := [?msg], log := [Println ?msg]\<rparr>)"
    by (simp add: checkDir_body.simps add_note_def IsDir_def empty_state_def Let_def)
  have found2: "[''y'' \<mapsto> Entry ''y'' (Dir [])] (Name (Entry ''y'' (Dir []))) =
     Some (Entry ''y'' (Dir []))"
    by simp
  obtain r2 st2 where body2: "checkDir_body ''s'' ''d'' [''y'' \<mapsto> Entry ''y'' (Dir [])]
      (Entry ''y'' (Dir [])) empty_state = (r2, st2)"
    by (cases "checkDir_body ''s'' ''d'' [''y'' \<mapsto> Entry ''y'' (Dir [])]
      (Entry ''y'' (Dir [])) empty_state")
  show ?thesis
    using notes_append_only [OF run found body] notes_append_only [OF run found2 body2] body2
    by (simp add: IsDir_def empty_state_def)
qed

section \<open>A failed listing ends the run\<close>

lemma listing_failed_simps [simp]:
  "listing_failed (IO ReadDir p (Some err))"
  "\<not> listing_failed (IO ReadDir p None)"
  "\<not> listing_failed (IO Info p e)"
  "\<not> listing_failed (IO Open p e)"
  "\<not> listing_failed (IO Read p e)"
  "\<not> listing_failed (IO Close p e)"
  "\<not> listing_failed (Println s)"
  "\<not> listing_failed (LogFatal e1 e2)"
  by (simp_all add: listing_failed_def)

lemma stops_seq:
  assumes "stops_at_failed_listing (Return u) evs1" and "stops_at_failed_listing r evs2"
  shows "stops_at_failed_listing r (evs1 @ evs2)"
proof -
  from assms(1) have n1: "\<not> list_ex listing_failed evs1"
    by (simp add: stops_at_failed_listing_def)
  show ?thesis
  proof (cases "list_ex listing_failed evs2")
    case False
    with n1 show ?thesis
      by (auto simp: stops_at_failed_listing_def list_ex_iff)
  next
    case True
    with assms(2) obtain pre p err msg where r: "r = Exit exitStatusOtherErrors"
      and e: "evs2 = pre @ [IO ReadDir p (Some err), Println msg]"
      and n2: "\<not> list_ex listing_failed pre"
      unfolding stops_at_failed_listing_def by blast
    from e have "evs1 @ evs2 = (evs1 @ pre) @ [IO ReadDir p (Some err), Println msg]"
      by simp
    moreover from n1 n2 have "\<not> list_ex listing_failed (evs1 @ pre)"
      by (auto simp: list_ex_iff)
    ultimately show ?thesis
      unfolding stops_at_failed_listing_def using r by blast
  qed
qed

lemma readLoop_no_listing_aux:
  "length (unread f1) = k \<Longrightarrow> readLoop f1 f2 st = (r, st') \<Longrightarrow>
   \<exists>evs. log st' = log st @ evs \<and> \<not> list_ex listing_failed evs"
proof (induction k arbitrary: f1 f2 st rule: less_induct)
  case (less k)
  obtain b1 n1 err1 f1' st1 where r1: "file_Read f1 (make_bytes chunkSize) st = ((b1, n1, err1, f1'), st1)"
    by (metis prod_cases4 surj_pair)
  obtain b2 n2 err2 f2' st2 where r2: "file_Read f2 (make_bytes chunkSize) st1 = ((b2, n2, err2, f2'), st2)"
    by (metis prod_cases4 surj_pair)
  from r1 obtain e1 where l1: "log st1 = log st @ [e1]" "\<not> listing_failed e1"
    by (auto simp: file_Read_def Let_def record_event_def split: if_splits)
  from r2 obtain e2 where l2: "log st2 = log st1 @ [e2]" "\<not> listing_failed e2"
    by (auto simp: file_Read_def Let_def record_event_def split: if_splits)
  show ?case
  proof (cases "err1 = None \<and> err2 = None \<and> b1 = b2")
    case True
    have "length (unread f1') < length (unread f1)"
      using r1 True file_Read_advances make_bytes_chunkSize by blast
    moreover from True less.prems(2) have "readLoop f1' f2' st2 = (r, st')"
      by (subst (asm) readLoop.simps) (simp add: r1 r2)
    ultimately obtain evs where "log st' = log st2 @ evs" "\<not> list_ex listing_failed evs"
      using less by blast
    with l1 l2 have "log st' = log st @ (e1 # e2 # evs)"
      "\<not> list_ex listing_failed (e1 # e2 # evs)"
      by simp_all
    then show ?thesis by blast
  next
    case False
    with less.prems(2) have "st' = st2 \<or> st' = record_event (LogFatal err1 err2) st2"
      by (subst (asm) readLoop.simps) (auto simp: r1 r2 split: if_splits)
    then have "log st' = log st @ [e1, e2] \<or> log st' = log st @ [e1, e2, LogFatal err1 err2]"
      using l1 l2 by (auto simp: record_event_def)
    then show ?thesis
    proof
      assume "log st' = log st @ [e1, e2]"
      moreover have "\<not> list_ex listing_failed [e1, e2]" using l1 l2 by simp
      ultimately show ?thesis by blast
    next
      assume "log st' = log st @ [e1, e2, LogFatal err1 err2]"
      moreover have "\<not> list_ex listing_failed [e1, e2, LogFatal err1 err2]" using l1 l2 by simp
      ultimately show ?thesis by blast
    qed
  qed
qed

lemma IsFileContentIdentical_no_listing:
  assumes "IsFileContentIdentical file1 nd1 file2 nd2 st = (r, st')"
  shows "\<exists>evs. log st' = log st @ evs \<and> \<not> list_ex listing_failed evs"
proof -
  obtain r1 st1 where o1: "os_Open file1 nd1 st = (r1, st1)"
    by (cases "os_Open file1 nd1 st")
  then obtain e1 where l1: "log st1 = log st @ [e1]" "\<not> listing_failed e1"
    by (cases nd1) (auto simp: os_Open_def record_event_def split: option.splits)
  show ?thesis
  proof (cases r1)
    case (Inl err)
    with assms o1 have "log st' = log st1 @ [Println err]"
      by (auto simp: IsFileContentIdentical_def reportErrorAndExit_def record_event_def)
    with l1 have "log st' = log st @ [e1, Println err]"
      "\<not> list_ex listing_failed [e1, Println err]" by simp_all
    then show ?thesis by blast
  next
    case f1: (Inr f1)
    obtain r2 st2 where o2: "os_Open file2 nd2 st1 = (r2, st2)"
      by (cases "os_Open file2 nd2 st1")
    then obtain e2 where l2: "log st2 = log st1 @ [e2]" "\<not> listing_failed e2"
      by (cases nd2) (auto simp: os_Open_def record_event_def split: option.splits)
    show ?thesis
    proof (cases r2)
      case (Inl err)
      with assms o1 o2 f1 have "log st' = log st2 @ [Println err]"
        by (auto simp: IsFileContentIdentical_def reportErrorAndExit_def record_event_def)
      with l1 l2 have "log st' = log st @ [e1, e2, Println err]"
        "\<not> list_ex listing_failed [e1, e2, Println err]" by simp_all
      then show ?thesis by blast
    next
      case f2: (Inr f2)
      obtain r3 st3 where l: "readLoop f1 f2 st2 = (r3, st3)"
        by (cases "readLoop f1 f2 st2")
      then obtain evs where l3: "log st3 = log st2 @ evs" "\<not> list_ex listing_failed evs"
        using readLoop_no_listing_aux by blast
      from assms o1 o2 f1 f2 l obtain tl where
        "log st' = log st3 @ tl" "\<not> list_ex listing_failed tl"
        by (cases r3; cases "hclose_err f2"; cases "hclose_err f1")
          (auto simp: IsFileContentIdentical_def file_Close_def reportErrorAndExit_def
            record_event_def)
      with l1 l2 l3 have "log st' = log st @ (e1 # e2 # evs @ tl)"
        "\<not> list_ex listing_failed (e1 # e2 # evs @ tl)"
        by (auto simp: list_ex_iff)
      then show ?thesis by blast
    qed
  qed
qed

lemma stops_no_listing: "\<not> list_ex listing_failed evs \<Longrightarrow> stops_at_failed_listing r evs"
  by (simp add: stops_at_failed_listing_def)

lemma stops_failed:
  "stops_at_failed_listing (Exit exitStatusOtherErrors) [IO ReadDir p (Some err), Println msg]"
  unfolding stops_at_failed_listing_def
  by (intro disjI2 conjI refl exI [of _ "[]"] exI [of _ p] exI [of _ err] exI [of _ msg]) simp_all

lemma loop_stops:
  assumes "\<forall>e \<in> set es. body_stops e"
    and "checkDir_loop a b m es st = (r, st')"
  shows "\<exists>evs. log st' = log st @ evs \<and> stops_at_failed_listing r evs"
  using assms
proof (induction es arbitrary: st)
  case Nil
  then show ?case by (auto simp: stops_at_failed_listing_def)
next
  case (Cons e es)
  obtain r1 st1 where b: "checkDir_body a b m e st = (r1, st1)"
    by (cases "checkDir_body a b m e st")
  with Cons.prems obtain evs1 where
    n1: "log st1 = log st @ evs1" "stops_at_failed_listing r1 evs1"
    unfolding body_stops_def by (metis list.set_intros(1))
  show ?case
  proof (cases r1)
    case (Exit k)
    with Cons.prems b have "st' = st1" "r = r1" by simp_all
    with n1 show ?thesis by auto
  next
    case (Return u)
    with Cons.prems b have "checkDir_loop a b m es st1 = (r, st')" by simp
    with Cons obtain evs2 where
      "log st' = log st1 @ evs2" "stops_at_failed_listing r evs2"
      by (metis list.set_intros(2))
    with n1 Return have "log st' = log st @ (evs1 @ evs2)"
      "stops_at_failed_listing r (evs1 @ evs2)"
      by (auto intro: stops_seq)
    then show ?thesis by blast
  qed
qed

lemma dir_stops_all_aux:
  assumes "\<And>es e. src = Dir es \<Longrightarrow> e \<in> set es \<Longrightarrow> body_stops e"
  shows "dir_stops src"
  unfolding dir_stops_def
proof (intro allI impI)
  fix a b dst st r st'
  assume run: "checkDir a src b dst st = (r, st')"
  show "\<exists>evs. log st' = log st @ evs \<and> stops_at_failed_listing r evs"
  proof (cases "\<exists>ds. dst = Dir ds")
    case False
    then obtain err where "readDirIntoMap b dst st =
        (Exit exitStatusOtherErrors,
         st\<lparr>log := log st @ [IO ReadDir b (Some (OSError err)), Println err]\<rparr>)"
      by (cases dst)
        (auto simp: readDirIntoMap_def os_ReadDir_def reportErrorAndExit_def record_event_def)
    with run have "r = Exit exitStatusOtherErrors"
      "log st' = log st @ [IO ReadDir b (Some (OSError err)), Println err]"
      by (auto simp: checkDir.simps)
    then show ?thesis using stops_failed by blast
  next
    case True
    then obtain ds where d: "dst = Dir ds" by blast
    let ?st1 = "record_event (IO ReadDir b None) st"
    have m: "readDirIntoMap b dst st = (Return (entries_map ds), ?st1)"
      using d by (simp add: readDirIntoMap_def os_ReadDir_def entries_map_def)
    show ?thesis
    proof (cases "\<exists>es. src = Dir es")
      case False
      then obtain err where "os_ReadDir a src ?st1 =
          (Inl err, ?st1\<lparr>log := log ?st1 @ [IO ReadDir a (Some (OSError err))]\<rparr>)"
        by (cases src) (auto simp: os_ReadDir_def record_event_def)
      with run m have "r = Exit exitStatusOtherErrors"
        "log st' = log st @ ([IO ReadDir b None] @ [IO ReadDir a (Some (OSError err)), Println err])"
        by (auto simp: checkDir.simps reportErrorAndExit_def record_event_def)
      moreover have "stops_at_failed_listing (Return ()) [IO ReadDir b None]"
        by (rule stops_no_listing) simp
      then have "stops_at_failed_listing (Exit exitStatusOtherErrors)
          ([IO ReadDir b None] @ [IO ReadDir a (Some (OSError err)), Println err])"
        using stops_failed by (rule stops_seq)
      ultimately show ?thesis by blast
    next
      case True
      then obtain es where s: "src = Dir es" by blast
      let ?st2 = "record_event (IO ReadDir a None) ?st1"
      from run m s have "checkDir_loop a b (entries_map ds) es ?st2 = (r, st')"
        by (simp add: checkDir.simps os_ReadDir_def)
      moreover have "\<forall>e \<in> set es. body_stops e"
        using assms s by blast
      ultimately obtain evs where e: "log st' = log ?st2 @ evs" "stops_at_failed_listing r evs"
        using loop_stops by blast
      have "stops_at_failed_listing (Return ()) [IO ReadDir b None, IO ReadDir a None]"
        by (rule stops_no_listing) simp
      then have "stops_at_failed_listing r ([IO ReadDir b None, IO ReadDir a None] @ evs)"
        using e(2) by (rule stops_seq)
      moreover from e(1) have "log st' = log st @ ([IO ReadDir b None, IO ReadDir a None] @ evs)"
        by (simp add: record_event_def)
      ultimately show ?thesis by blast
    qed
  qed
qed

lemma body_stops_Entry:
  assumes "dir_stops t"
  shows "body_stops (Entry x t)"
  unfolding body_stops_def
proof (intro allI impI)
  fix a b m st r st'
  assume run: "checkDir_body a b m (Entry x t) st = (r, st')"
  let ?e = "Entry x t"
  show "\<exists>evs. log st' = log st @ evs \<and> stops_at_failed_listing r evs"
  proof (cases "m x")
    case None
    with run have "st' = st" by (simp add: checkDir_body.simps)
    then show ?thesis by (auto simp: stops_at_failed_listing_def)
  next
    case (Some d)
    show ?thesis
    proof (cases "IsDir ?e \<and> IsDir d")
      case True
      with run Some have "checkDir (filepath_Join a x) t (filepath_Join b (Name d)) (target d) st = (r, st')"
        by (simp add: checkDir_body.simps)
      with assms show ?thesis
        unfolding dir_stops_def by blast
    next
      case nb: False
      have "\<exists>evs. log st' = log st @ evs \<and> \<not> list_ex listing_failed evs"
      proof (cases "IsDir ?e \<noteq> IsDir d")
        case True
        with run Some have "log st' = log st @ [Println (msg_types (filepath_Join a x) (filepath_Join b (Name d)))]"
          by (auto simp: checkDir_body.simps Let_def add_note_def)
        moreover have "\<not> list_ex listing_failed [Println (msg_types (filepath_Join a x) (filepath_Join b (Name d)))]"
          by simp
        ultimately show ?thesis by blast
      next
        case False
        let ?sp = "filepath_Join a x" and ?dp = "filepath_Join b (Name d)"
        obtain i1 st1 where i1: "entry_Info ?sp ?e st = (i1, st1)"
          by (cases "entry_Info ?sp ?e st")
        then obtain e1 where l1: "log st1 = log st @ [e1]" "\<not> listing_failed e1"
          by (auto simp: entry_Info_def record_event_def split: node.splits option.splits)
        obtain i2 st2 where i2: "entry_Info ?dp d st1 = (i2, st2)"
          by (cases "entry_Info ?dp d st1")
        then obtain e2 where l2: "log st2 = log st1 @ [e2]" "\<not> listing_failed e2"
          by (auto simp: entry_Info_def record_event_def split: node.splits option.splits)
        obtain r3 st3 where c: "IsFileContentIdentical ?sp t ?dp (target d) st2 = (r3, st3)"
          by (cases "IsFileContentIdentical ?sp t ?dp (target d) st2")
        then obtain evs3 where l3: "log st3 = log st2 @ evs3" "\<not> list_ex listing_failed evs3"
          using IsFileContentIdentical_no_listing by blast
        have body: "checkDir_body a b m ?e st =
            (case i1 of
               Inl err \<Rightarrow> reportErrorAndExit err st1
             | Inr sourceSize \<Rightarrow>
                 (case i2 of
                    Inl err \<Rightarrow> reportErrorAndExit err st2
                  | Inr destSize \<Rightarrow>
                      if sourceSize \<noteq> destSize then (Return (), add_note (msg_sizes ?sp ?dp) st2)
                      else (case r3 of
                              Exit n \<Rightarrow> (Exit n, st3)
                            | Return identical \<Rightarrow>
                                if \<not> identical then (Return (), add_note (msg_content ?sp ?dp) st3)
                                else (Return (), st3))))"
          using Some nb False i1 i2 c
          by (simp add: checkDir_body.simps Let_def split: sum.splits outcome.splits)
        have "(\<exists>s. log st' = log st1 @ [Println s]) \<or> (\<exists>s. log st' = log st2 @ [Println s])
          \<or> log st' = log st3 \<or> (\<exists>s. log st' = log st3 @ [Println s])"
        proof (cases i1)
          case (Inl err)
          with run body show ?thesis
            by (auto simp: reportErrorAndExit_def record_event_def)
        next
          case s1: (Inr s1)
          show ?thesis
          proof (cases i2)
            case (Inl err)
            with run body s1 show ?thesis
              by (auto simp: reportErrorAndExit_def record_event_def)
          next
            case s2: (Inr s2)
            show ?thesis
            proof (cases "s1 = s2")
              case False
              with run body s1 s2 show ?thesis
                by (auto simp: add_note_def)
            next
              case True
              with run body s1 s2 show ?thesis
                by (cases r3) (auto simp: add_note_def split: if_splits)
            qed
          qed
        qed
        then obtain tl where "log st' = log st @ tl" "\<not> list_ex listing_failed tl"
          using l1 l2 l3 by (elim disjE exE) (simp_all add: list_ex_iff)
        then show ?thesis by blast
      qed
      then show ?thesis using stops_no_listing by blast
    qed
  qed
qed

lemma dir_stops_all: "dir_stops src"
  by (induction src rule: node.induct [where ?P2.0 = body_stops])
    (auto intro: dir_stops_all_aux body_stops_Entry)


section \<open>The notes of a walk that returns\<close>

lemma render_Cons:
  "render a b (k, x # rel) = render (filepath_Join a x) (filepath_Join b x) (k, rel)"
  by (simp add: render_def path_of_Cons)

lemma render_single:
  "render a b (k, [x]) = note_msg k (filepath_Join a x) (filepath_Join b x)"
  by (simp add: render_def path_of_def)

lemma loop_items:
  assumes "\<forall>e \<in> set es. body_items e" and "keyed m"
    and "checkDir_loop a b m es st = (Return u, st')"
  shows "all_notes st' =
     all_notes st @ map (render a b) (concat (map (\<lambda>e. entry_divergences a e b m) es))"
  using assms
proof (induction es arbitrary: st)
  case Nil
  then show ?case by simp
next
  case (Cons e es)
  obtain r1 st1 where b: "checkDir_body a b m e st = (r1, st1)"
    by (cases "checkDir_body a b m e st")
  with Cons.prems obtain u1 where r1: "r1 = Return u1"
    by (cases r1) auto
  with Cons.prems b have
    "all_notes st1 = all_notes st @ map (render a b) (entry_divergences a e b m)"
    unfolding body_items_def by (metis list.set_intros(1))
  moreover from Cons.prems b r1 have "checkDir_loop a b m es st1 = (Return u, st')"
    by simp
  with Cons have "all_notes st' =
     all_notes st1 @ map (render a b) (concat (map (\<lambda>e. entry_divergences a e b m) es))"
    by (metis list.set_intros(2))
  ultimately show ?case by simp
qed

lemma readDirIntoMap_Return:
  assumes "readDirIntoMap path nd st = (Return m, st')"
  obtains es where "nd = Dir es" and "m = entries_map es"
    and "st' = record_event (IO ReadDir path None) st"
  using assms
  by (cases nd)
    (auto simp: readDirIntoMap_def os_ReadDir_def reportErrorAndExit_def entries_map_def)

lemma keyed_entries_map: "keyed (entries_map es)"
  unfolding keyed_def entries_map_def using fold_entries_lookup [of es Map.empty] by auto

lemma dir_items_Dir:
  assumes "\<And>e. e \<in> set es \<Longrightarrow> body_items e"
  shows "dir_items (Dir es)"
  unfolding dir_items_def
proof (intro allI impI)
  fix a b dst st u st'
  assume run: "checkDir a (Dir es) b dst st = (Return u, st')"
  obtain r1 st1 where m: "readDirIntoMap b dst st = (r1, st1)"
    by (cases "readDirIntoMap b dst st")
  with run obtain mp where r1: "r1 = Return mp"
    by (cases r1) (auto simp: checkDir.simps)
  from m r1 obtain ds where d: "dst = Dir ds" "mp = entries_map ds"
    "st1 = record_event (IO ReadDir b None) st"
    by (auto elim: readDirIntoMap_Return)
  let ?st2 = "record_event (IO ReadDir a None) st1"
  from run m r1 have "checkDir_loop a b mp es ?st2 = (Return u, st')"
    by (simp add: checkDir.simps os_ReadDir_def)
  then have "all_notes st' =
     all_notes ?st2 @ map (render a b) (concat (map (\<lambda>e. entry_divergences a e b mp) es))"
    using assms d keyed_entries_map by (intro loop_items) auto
  with d show "all_notes st' = all_notes st @ map (render a b) (divergences a (Dir es) b dst)"
    by (simp add: record_event_def)
qed

lemma dir_items_other:
  assumes "\<And>es. src \<noteq> Dir es"
  shows "dir_items src"
  unfolding dir_items_def
proof (intro allI impI)
  fix a b dst st u st'
  assume run: "checkDir a src b dst st = (Return u, st')"
  obtain r1 st1 where m: "readDirIntoMap b dst st = (r1, st1)"
    by (cases "readDirIntoMap b dst st")
  with run assms have False
    by (cases src; cases r1)
      (auto simp: checkDir.simps os_ReadDir_def reportErrorAndExit_def)
  then show "all_notes st' = all_notes st @ map (render a b) (divergences a src b dst)" ..
qed

lemma body_items_Entry:
  assumes "dir_items t"
  shows "body_items (Entry x t)"
  unfolding body_items_def
proof (intro allI impI)
  fix a b m st u st'
  assume k: "keyed m" and run: "checkDir_body a b m (Entry x t) st = (Return u, st')"
  let ?e = "Entry x t"
  show "all_notes st' = all_notes st @ map (render a b) (entry_divergences a ?e b m)"
  proof (cases "m x")
    case None
    with run show ?thesis by (simp add: checkDir_body.simps)
  next
    case (Some d)
    with k have nd: "Name d = x" by (simp add: keyed_def)
    show ?thesis
    proof (cases "IsDir ?e \<and> IsDir d")
      case True
      with run Some nd have "checkDir (filepath_Join a x) t (filepath_Join b x) (target d) st = (Return u, st')"
        by (simp add: checkDir_body.simps)
      with assms have "all_notes st' = all_notes st @
          map (render (filepath_Join a x) (filepath_Join b x))
            (divergences (filepath_Join a x) t (filepath_Join b x) (target d))"
        unfolding dir_items_def by blast
      with True Some show ?thesis
        by (simp add: render_Cons comp_def)
    next
      case nb: False
      show ?thesis
      proof (cases "IsDir ?e \<noteq> IsDir d")
        case True
        with run Some nd show ?thesis
          by (auto simp: checkDir_body.simps Let_def add_note_def render_single)
      next
        case False
        with nb obtain sf df where f: "t = File sf" "target d = File df"
          by (cases t; cases "target d") (auto simp: IsDir_def)
        with run Some nd False nb show ?thesis
          by (auto simp: checkDir_body.simps Let_def add_note_def render_single IsDir_def
              entry_Info_def reportErrorAndExit_def record_event_def files_divergence_def
              dest: IsFileContentIdentical_result [where ?st0.0 = empty_state]
                IsFileContentIdentical_notes
              split: option.splits prod.splits outcome.splits if_splits)
      qed
    qed
  qed
qed

lemma dir_items_all: "dir_items src"
  by (induction src rule: node.induct [where ?P2.0 = body_items])
    (auto intro: dir_items_Dir dir_items_other body_items_Entry)

section \<open>The result of a walk does not depend on the state\<close>

lemma entry_Info_extend: "\<exists>r evs. \<forall>st. entry_Info path e st = (r, extend st [] evs)"
proof (cases "target e")
  case (File f)
  then show ?thesis
    by (cases "info_err f") (simp_all add: entry_Info_def record_event_extend)
qed (simp_all add: entry_Info_def record_event_extend)

lemma os_ReadDir_extend: "\<exists>r evs. \<forall>st. os_ReadDir path nd st = (r, extend st [] evs)"
  by (cases nd) (auto simp: os_ReadDir_def record_event_extend)

lemma readDirIntoMap_extend: "\<exists>r evs. \<forall>st. readDirIntoMap path nd st = (r, extend st [] evs)"
proof -
  obtain r evs where "\<And>st. os_ReadDir path nd st = (r, extend st [] evs)"
    using os_ReadDir_extend by blast
  then show ?thesis
    by (cases r) (simp_all add: readDirIntoMap_def reportErrorAndExit_extend)
qed

lemma loop_extends:
  assumes "\<forall>e \<in> set es. body_extends e"
  shows "\<exists>r ns evs. \<forall>st. checkDir_loop a b m es st = (r, extend st ns evs)"
  using assms
proof (induction es)
  case Nil
  have "\<forall>st. checkDir_loop a b m [] st = (Return (), extend st [] [])"
    by simp
  then show ?case by blast
next
  case (Cons e es)
  then obtain r1 ns1 evs1 where b: "\<And>st. checkDir_body a b m e st = (r1, extend st ns1 evs1)"
    unfolding body_extends_def by (metis list.set_intros(1))
  from Cons obtain r2 ns2 evs2 where l: "\<And>st. checkDir_loop a b m es st = (r2, extend st ns2 evs2)"
    by (metis list.set_intros(2))
  show ?case
  proof (cases r1)
    case (Exit n)
    then have "\<forall>st. checkDir_loop a b m (e # es) st = (Exit n, extend st ns1 evs1)"
      by (simp add: b)
    then show ?thesis by blast
  next
    case (Return u)
    then have "\<forall>st. checkDir_loop a b m (e # es) st = (r2, extend st (ns1 @ ns2) (evs1 @ evs2))"
      by (simp add: b l)
    then show ?thesis by blast
  qed
qed

lemma dir_extends_aux:
  assumes "\<And>es e. src = Dir es \<Longrightarrow> e \<in> set es \<Longrightarrow> body_extends e"
  shows "dir_extends src"
  unfolding dir_extends_def
proof (intro allI)
  fix a b dst
  obtain r1 e1 where m: "\<And>st. readDirIntoMap b dst st = (r1, extend st [] e1)"
    using readDirIntoMap_extend by blast
  obtain r2 e2 where l: "\<And>st. os_ReadDir a src st = (r2, extend st [] e2)"
    using os_ReadDir_extend by blast
  show "\<exists>r ns evs. \<forall>st. checkDir a src b dst st = (r, extend st ns evs)"
  proof (cases r1)
    case (Exit n)
    then have "\<forall>st. checkDir a src b dst st = (Exit n, extend st [] e1)"
      by (simp add: checkDir.simps m)
    then show ?thesis by blast
  next
    case (Return mp)
    show ?thesis
    proof (cases r2)
      case (Inl err)
      with Return have "\<forall>st. checkDir a src b dst st =
          (Exit exitStatusOtherErrors, extend st [] (e1 @ e2 @ [Println err]))"
        by (simp add: checkDir.simps m l reportErrorAndExit_extend)
      then show ?thesis by blast
    next
      case (Inr es)
      with l [of empty_state] have "src = Dir es"
        by (cases src) (auto simp: os_ReadDir_def)
      with assms have "\<forall>e \<in> set es. body_extends e" by blast
      then obtain r3 ns3 e3 where "\<And>st. checkDir_loop a b mp es st = (r3, extend st ns3 e3)"
        using loop_extends by blast
      with Return Inr have "\<forall>st. checkDir a src b dst st = (r3, extend st ns3 (e1 @ e2 @ e3))"
        by (simp add: checkDir.simps m l)
      then show ?thesis by blast
    qed
  qed
qed

lemma body_extends_Entry:
  assumes "dir_extends t"
  shows "body_extends (Entry x t)"
  unfolding body_extends_def
proof (intro allI)
  fix a b m
  let ?e = "Entry x t"
  show "\<exists>r ns evs. \<forall>st. checkDir_body a b m ?e st = (r, extend st ns evs)"
  proof (cases "m x")
    case None
    then have "\<forall>st. checkDir_body a b m ?e st = (Return (), extend st [] [])"
      by (simp add: checkDir_body.simps)
    then show ?thesis by blast
  next
    case (Some d)
    let ?sp = "filepath_Join a x" and ?dp = "filepath_Join b (Name d)"
    show ?thesis
    proof (cases "IsDir ?e \<and> IsDir d")
      case True
      from assms obtain r ns evs where "\<And>st. checkDir ?sp t ?dp (target d) st = (r, extend st ns evs)"
        unfolding dir_extends_def by blast
      with True Some have "\<forall>st. checkDir_body a b m ?e st = (r, extend st ns evs)"
        by (simp add: checkDir_body.simps)
      then show ?thesis by blast
    next
      case nb: False
      show ?thesis
      proof (cases "IsDir ?e \<noteq> IsDir d")
        case True
        with Some have "\<forall>st. checkDir_body a b m ?e st =
            (Return (), extend st [msg_types ?sp ?dp] [Println (msg_types ?sp ?dp)])"
          by (auto simp: checkDir_body.simps Let_def add_note_extend)
        then show ?thesis by blast
      next
        case False
        obtain i1 e1 where i1: "\<And>st. entry_Info ?sp ?e st = (i1, extend st [] e1)"
          using entry_Info_extend by blast
        obtain i2 e2 where i2: "\<And>st. entry_Info ?dp d st = (i2, extend st [] e2)"
          using entry_Info_extend by blast
        obtain r3 e3 where c: "\<And>st. IsFileContentIdentical ?sp t ?dp (target d) st = (r3, extend st [] e3)"
          using IsFileContentIdentical_extend by blast
        have body: "checkDir_body a b m ?e st =
            (case i1 of
               Inl err \<Rightarrow> reportErrorAndExit err (extend st [] e1)
             | Inr sourceSize \<Rightarrow>
                 (case i2 of
                    Inl err \<Rightarrow> reportErrorAndExit err (extend st [] (e1 @ e2))
                  | Inr destSize \<Rightarrow>
                      if sourceSize \<noteq> destSize
                      then (Return (), add_note (msg_sizes ?sp ?dp) (extend st [] (e1 @ e2)))
                      else (case r3 of
                              Exit n \<Rightarrow> (Exit n, extend st [] (e1 @ e2 @ e3))
                            | Return identical \<Rightarrow>
                                if \<not> identical
                                then (Return (), add_note (msg_content ?sp ?dp)
                                        (extend st [] (e1 @ e2 @ e3)))
                                else (Return (), extend st [] (e1 @ e2 @ e3)))))" for st
          using Some nb False
          by (simp add: checkDir_body.simps Let_def i1 i2 c split: sum.splits outcome.splits)
        show ?thesis
        proof (cases i1)
          case (Inl err)
          then have "\<forall>st. checkDir_body a b m ?e st =
              (Exit exitStatusOtherErrors, extend st [] (e1 @ [Println err]))"
            by (simp add: body reportErrorAndExit_extend)
          then show ?thesis by blast
        next
          case s1: (Inr s1)
          show ?thesis
          proof (cases i2)
            case (Inl err)
            with s1 have "\<forall>st. checkDir_body a b m ?e st =
                (Exit exitStatusOtherErrors, extend st [] (e1 @ e2 @ [Println err]))"
              by (simp add: body reportErrorAndExit_extend)
            then show ?thesis by blast
          next
            case s2: (Inr s2)
            show ?thesis
            proof (cases "s1 = s2")
              case False
              with s1 s2 have "\<forall>st. checkDir_body a b m ?e st =
                  (Return (), extend st [msg_sizes ?sp ?dp] (e1 @ e2 @ [Println (msg_sizes ?sp ?dp)]))"
                by (simp add: body add_note_extend)
              then show ?thesis by blast
            next
              case True
              show ?thesis
              proof (cases r3)
                case (Exit n)
                with s1 s2 True have "\<forall>st. checkDir_body a b m ?e st =
                    (Exit n, extend st [] (e1 @ e2 @ e3))"
                  by (simp add: body)
                then show ?thesis by blast
              next
                case (Return identical)
                show ?thesis
                proof (cases identical)
                  case True
                  with s1 s2 \<open>s1 = s2\<close> Return have "\<forall>st. checkDir_body a b m ?e st =
                      (Return (), extend st [] (e1 @ e2 @ e3))"
                    by (simp add: body)
                  then show ?thesis by blast
                next
                  case False
                  with s1 s2 \<open>s1 = s2\<close> Return have "\<forall>st. checkDir_body a b m ?e st =
                      (Return (), extend st [msg_content ?sp ?dp]
                         (e1 @ e2 @ e3 @ [Println (msg_content ?sp ?dp)]))"
                    by (simp add: body add_note_extend)
                  then show ?thesis by blast
                qed
              qed
            qed
          qed
        qed
      qed
    qed
  qed
qed

lemma dir_extends_all: "dir_extends src"
  by (induction src rule: node.induct [where ?P2.0 = body_extends])
    (auto intro: dir_extends_aux body_extends_Entry)

lemma body_extends_all: "body_extends e"
  by (cases e) (simp add: body_extends_Entry dir_extends_all)

lemma checkDir_result: "fst (checkDir a src b dst st) = fst (checkDir a src b dst st0)"
  using dir_extends_all [of src] unfolding dir_extends_def by (metis fst_conv)

lemma checkDir_body_result:
  "fst (checkDir_body a b m e st) = fst (checkDir_body a b m e st0)"
  using body_extends_all [of e] unfolding body_extends_def by (metis fst_conv)

lemma checkDir_loop_result:
  "fst (checkDir_loop a b m es st) = fst (checkDir_loop a b m es st0)"
  using loop_extends [of es a b m] body_extends_all by (metis fst_conv)

section \<open>Swapping the two trees\<close>

lemma entries_map_Some:
  "entries_map es k = Some d \<Longrightarrow> d \<in> set es \<and> Name d = k"
  unfolding entries_map_def using fold_entries_lookup [of es Map.empty k d] by simp

lemma entries_map_distinct:
  "distinct (map Name es) \<Longrightarrow> d \<in> set es \<Longrightarrow> entries_map es (Name d) = Some d"
proof (induction es rule: rev_induct)
  case Nil
  then show ?case by simp
next
  case (snoc e es)
  have step: "entries_map (es @ [e]) = (entries_map es)(Name e \<mapsto> e)"
    by (simp add: entries_map_def)
  show ?case
  proof (cases "d = e")
    case True
    then show ?thesis by (simp add: step)
  next
    case False
    with snoc.prems have d: "d \<in> set es"
      by simp
    then have "Name d \<in> Name ` set es"
      by (rule imageI)
    with snoc.prems have "Name d \<noteq> Name e"
      by auto
    with snoc d show ?thesis by (simp add: step)
  qed
qed

lemma entry_Info_result:
  "fst (entry_Info path e st) =
     (case target e of
        File f \<Rightarrow> (case info_err f of Some err \<Rightarrow> Inl err | None \<Rightarrow> Inr (Size f))
      | _ \<Rightarrow> Inr 0)"
  by (simp add: entry_Info_def split: node.splits option.splits)

lemma body_files_result:
  assumes "m (Name e) = Some d" and "target e = File sf" and "target d = File df"
  shows "fst (checkDir_body a b m e st) =
     (if info_err sf \<noteq> None \<or> info_err df \<noteq> None then Exit exitStatusOtherErrors
      else if Size sf \<noteq> Size df then Return ()
      else (case fst (IsFileContentIdentical (filepath_Join a (Name e)) (File sf)
                       (filepath_Join b (Name d)) (File df) empty_state) of
              Exit n \<Rightarrow> Exit n
            | Return identical \<Rightarrow> Return ()))"
proof -
  let ?sp = "filepath_Join a (Name e)" and ?dp = "filepath_Join b (Name d)"
  obtain i1 e1 where i1: "\<And>st. entry_Info ?sp e st = (i1, extend st [] e1)"
    using entry_Info_extend by blast
  obtain i2 e2 where i2: "\<And>st. entry_Info ?dp d st = (i2, extend st [] e2)"
    using entry_Info_extend by blast
  obtain r3 e3 where c: "\<And>st. IsFileContentIdentical ?sp (File sf) ?dp (File df) st = (r3, extend st [] e3)"
    using IsFileContentIdentical_extend by blast
  have v1: "i1 = (case info_err sf of Some err \<Rightarrow> Inl err | None \<Rightarrow> Inr (Size sf))"
    using entry_Info_result [of ?sp e empty_state] assms by (simp add: i1)
  have v2: "i2 = (case info_err df of Some err \<Rightarrow> Inl err | None \<Rightarrow> Inr (Size df))"
    using entry_Info_result [of ?dp d empty_state] assms by (simp add: i2)
  show ?thesis
    using assms
    by (cases "info_err sf"; cases "info_err df"; cases r3)
      (simp_all add: checkDir_body.simps Let_def IsDir_def i1 i2 c v1 v2
        reportErrorAndExit_extend)
qed

lemma body_nondir_sym:
  assumes "m (Name e) = Some d" and "m' (Name d) = Some e" and "\<not> (IsDir e \<and> IsDir d)"
  shows "fst (checkDir_body a b m e st) = fst (checkDir_body b a m' d st')"
proof (cases "IsDir e \<noteq> IsDir d")
  case True
  with assms show ?thesis
    by (auto simp: checkDir_body.simps Let_def)
next
  case False
  with assms obtain sf df where f: "target e = File sf" "target d = File df"
    by (cases "target e"; cases "target d") (auto simp: IsDir_def)
  have 1: "fst (checkDir_body a b m e st) =
     (if info_err sf \<noteq> None \<or> info_err df \<noteq> None then Exit exitStatusOtherErrors
      else if Size sf \<noteq> Size df then Return ()
      else (case fst (IsFileContentIdentical (filepath_Join a (Name e)) (File sf)
                       (filepath_Join b (Name d)) (File df) empty_state) of
              Exit n \<Rightarrow> Exit n
            | Return identical \<Rightarrow> Return ()))"
    using assms(1) f by (rule body_files_result)
  have 2: "fst (checkDir_body b a m' d st') =
     (if info_err df \<noteq> None \<or> info_err sf \<noteq> None then Exit exitStatusOtherErrors
      else if Size df \<noteq> Size sf then Return ()
      else (case fst (IsFileContentIdentical (filepath_Join b (Name d)) (File df)
                       (filepath_Join a (Name e)) (File sf) empty_state) of
              Exit n \<Rightarrow> Exit n
            | Return identical \<Rightarrow> Return ()))"
    using assms(2) f(2,1) by (rule body_files_result)
  show ?thesis
    unfolding 1 2
    using IsFileContentIdentical_sym
      [of "filepath_Join a (Name e)" "File sf" "filepath_Join b (Name d)" "File df"
        empty_state empty_state]
    by auto
qed

lemma files_divergence_sym:
  "files_divergence p1 n1 p2 n2 = files_divergence p2 n2 p1 n1"
  using IsFileContentIdentical_sym [of p1 n1 p2 n2 empty_state empty_state]
  by (auto simp: files_divergence_def split: node.splits)

lemma loop_returns_iff:
  "fst (checkDir_loop a b m es st) = Return () \<longleftrightarrow>
   (\<forall>e \<in> set es. fst (checkDir_body a b m e st) = Return ())"
proof (induction es arbitrary: st)
  case Nil
  show ?case by simp
next
  case (Cons e es)
  obtain r1 st1 where b: "checkDir_body a b m e st = (r1, st1)"
    by (cases "checkDir_body a b m e st")
  show ?case
  proof (cases r1)
    case (Exit n)
    with b show ?thesis by simp
  next
    case (Return u)
    have "fst (checkDir_body a b m e' st1) = fst (checkDir_body a b m e' st)" for e'
      by (rule checkDir_body_result)
    with b Return Cons.IH [of st1] show ?thesis by simp
  qed
qed

lemma checkDir_returns_iff:
  "fst (checkDir a src b dst st) = Return () \<longleftrightarrow>
   (\<exists>es ds. src = Dir es \<and> dst = Dir ds \<and>
      (\<forall>e \<in> set es. fst (checkDir_body a b (entries_map ds) e st) = Return ()))"
proof (cases dst)
  case (Dir ds)
  show ?thesis
  proof (cases src)
    case src: (Dir es)
    have "fst (checkDir a src b dst st) =
        fst (checkDir_loop a b (entries_map ds) es
          (record_event (IO ReadDir a None) (record_event (IO ReadDir b None) st)))"
      using Dir src
      by (simp add: checkDir.simps readDirIntoMap_def os_ReadDir_def entries_map_def)
    also have "\<dots> = fst (checkDir_loop a b (entries_map ds) es st)"
      by (rule checkDir_loop_result)
    finally show ?thesis
      using Dir src by (simp add: loop_returns_iff)
  qed (simp_all add: Dir checkDir.simps readDirIntoMap_def os_ReadDir_def
      reportErrorAndExit_def)
qed (simp_all add: checkDir.simps readDirIntoMap_def os_ReadDir_def reportErrorAndExit_def)

lemma sym_dir_Dir:
  assumes "\<And>e. e \<in> set es \<Longrightarrow> sym_body e"
  shows "sym_dir (Dir es)"
  unfolding sym_dir_def
proof (intro allI impI)
  fix a b dst st st'
  assume dn: "distinct_names (Dir es)" "distinct_names dst"
    and ret: "fst (checkDir a (Dir es) b dst st) = Return ()"
  from ret obtain ds where dst: "dst = Dir ds"
    and bodies: "\<And>e. e \<in> set es \<Longrightarrow> fst (checkDir_body a b (entries_map ds) e st) = Return ()"
    unfolding checkDir_returns_iff by auto
  let ?mA = "entries_map es" and ?mB = "entries_map ds"
  from dn dst have dist: "distinct (map Name es)" "distinct (map Name ds)"
    and dne: "\<And>e. e \<in> set es \<Longrightarrow> distinct_names_entry e"
      "\<And>d. d \<in> set ds \<Longrightarrow> distinct_names_entry d"
    by (simp_all add: list_all_iff)
  have pair: "fst (checkDir_body b a ?mA d st') = Return () \<and>
      set (entry_divergences a e b ?mB) = set (entry_divergences b d a ?mA)"
    if "e \<in> set es" "d \<in> set ds" "Name d = Name e" for e d
  proof -
    have "?mB (Name e) = Some d" "?mA (Name d) = Some e"
      using that dist entries_map_distinct [of ds d] entries_map_distinct [of es e] by simp_all
    with assms [OF that(1)] dne that bodies [OF that(1)] show ?thesis
      unfolding sym_body_def by blast
  qed
  have "fst (checkDir_body b a ?mA d st') = Return ()" if "d \<in> set ds" for d
  proof (cases "?mA (Name d)")
    case None
    then show ?thesis by (simp add: checkDir_body.simps)
  next
    case (Some e)
    then have "e \<in> set es" "Name e = Name d"
      using entries_map_Some by blast+
    with pair that show ?thesis by simp
  qed
  then have 1: "fst (checkDir b dst a (Dir es) st') = Return ()"
    unfolding checkDir_returns_iff using dst by simp
  have none: "entry_divergences p e q m = []" if "m (Name e) = None" for p e q m
    using that by (cases e) simp
  have "set (divergences a (Dir es) b dst) = set (divergences b dst a (Dir es))"
  proof (intro set_eqI iffI)
    fix x
    assume "x \<in> set (divergences a (Dir es) b dst)"
    then obtain e where e: "e \<in> set es" "x \<in> set (entry_divergences a e b ?mB)"
      using dst by auto
    with none [of ?mB e a b] obtain d where "?mB (Name e) = Some d"
      by (cases "?mB (Name e)") auto
    then have "d \<in> set ds" "Name d = Name e"
      using entries_map_Some by blast+
    with pair e show "x \<in> set (divergences b dst a (Dir es))"
      using dst by auto
  next
    fix x
    assume "x \<in> set (divergences b dst a (Dir es))"
    then obtain d where d: "d \<in> set ds" "x \<in> set (entry_divergences b d a ?mA)"
      using dst by auto
    with none [of ?mA d b a] obtain e where "?mA (Name d) = Some e"
      by (cases "?mA (Name d)") auto
    then have "e \<in> set es" "Name d = Name e"
      using entries_map_Some by force+
    with pair d show "x \<in> set (divergences a (Dir es) b dst)"
      using dst by auto
  qed
  with 1 show "fst (checkDir b dst a (Dir es) st') = Return () \<and>
      set (divergences a (Dir es) b dst) = set (divergences b dst a (Dir es))"
    by simp
qed

lemma sym_dir_other:
  assumes "\<And>es. src \<noteq> Dir es"
  shows "sym_dir src"
  unfolding sym_dir_def checkDir_returns_iff using assms by simp

lemma sym_body_Entry:
  assumes "sym_dir t"
  shows "sym_body (Entry x t)"
  unfolding sym_body_def
proof (intro allI impI)
  fix a b d m m' st st'
  let ?e = "Entry x t"
  assume dn: "distinct_names_entry ?e" "distinct_names_entry d"
    and m: "m (Name ?e) = Some d" "m' (Name d) = Some ?e" and nd: "Name d = Name ?e"
    and ret: "fst (checkDir_body a b m ?e st) = Return ()"
  obtain t' where d: "d = Entry x t'"
    using nd by (cases d) simp
  show "fst (checkDir_body b a m' d st') = Return () \<and>
      set (entry_divergences a ?e b m) = set (entry_divergences b d a m')"
  proof (cases "IsDir ?e \<and> IsDir d")
    case True
    let ?sp = "filepath_Join a x" and ?dp = "filepath_Join b x"
    from ret m d True have "fst (checkDir ?sp t ?dp t' st) = Return ()"
      by (simp add: checkDir_body.simps)
    moreover from dn d have "distinct_names t" "distinct_names t'"
      by simp_all
    ultimately have "fst (checkDir ?dp t' ?sp t st') = Return ()"
      and "set (divergences ?sp t ?dp t') = set (divergences ?dp t' ?sp t)"
      using assms [unfolded sym_dir_def, rule_format,
          where a = ?sp and b = ?dp and dst = t' and st = st and st' = st']
      by simp_all
    with m d True show ?thesis
      by (simp add: checkDir_body.simps)
  next
    case False
    with m have "fst (checkDir_body a b m ?e st) = fst (checkDir_body b a m' d st')"
      by (intro body_nondir_sym) simp_all
    moreover have "set (entry_divergences a ?e b m) = set (entry_divergences b d a m')"
      using m d False
      by (auto simp: files_divergence_sym [of "filepath_Join a x" t "filepath_Join b x" t'])
    ultimately show ?thesis using ret by simp
  qed
qed

lemma sym_dir_all: "sym_dir src"
proof (induction src rule: node.induct [where ?P2.0 = sym_body])
  case (Dir es)
  then show ?case by (rule sym_dir_Dir)
next
  case (Entry x t)
  then show ?case by (rule sym_body_Entry)
qed (simp_all add: sym_dir_other)

text \<open>
  C4: \<^verbatim>\<open>compareTrees\<close> is symmetric up to the swap of the two roles.  For two trees
  in which no directory has a name twice (as \<^verbatim>\<open>os.ReadDir\<close> lists them): when the
  walk from \<open>src\<close> to \<open>dst\<close> returns, the walk from \<open>dst\<close> to \<open>src\<close> returns too; the
  notes of the two walks are the messages of two lists of divergences (a kind and a
  relative path each) that have the same elements, and each note of the second walk
  has the two paths of the same relative path in swapped places.  And when an error
  stops the walk in one direction, an error stops it in the other.
\<close>

theorem checkDir_symmetric:
  assumes "distinct_names src" and "distinct_names dst"
  shows "(\<forall>st1. checkDir sourceDir src destDir dst st = (Return (), st1) \<longrightarrow>
      (\<exists>st2 items1 items2.
         checkDir destDir dst sourceDir src st = (Return (), st2) \<and>
         all_notes st1 = all_notes st @ map (render sourceDir destDir) items1 \<and>
         all_notes st2 = all_notes st @ map (render destDir sourceDir) items2 \<and>
         set items1 = set items2)) \<and>
     ((\<exists>n. fst (checkDir sourceDir src destDir dst st) = Exit n) \<longrightarrow>
      (\<exists>n. fst (checkDir destDir dst sourceDir src st) = Exit n))"
proof (intro conjI allI impI)
  fix st1
  assume run: "checkDir sourceDir src destDir dst st = (Return (), st1)"
  let ?items1 = "divergences sourceDir src destDir dst"
  let ?items2 = "divergences destDir dst sourceDir src"
  from run have "fst (checkDir sourceDir src destDir dst st) = Return ()"
    by simp
  with assms sym_dir_all [of src]
  have ret: "fst (checkDir destDir dst sourceDir src st) = Return ()"
    and eq: "set ?items1 = set ?items2"
    unfolding sym_dir_def by blast+
  from ret obtain st2 where run2: "checkDir destDir dst sourceDir src st = (Return (), st2)"
    by (cases "checkDir destDir dst sourceDir src st") simp
  have "all_notes st1 = all_notes st @ map (render sourceDir destDir) ?items1"
    using run dir_items_all [of src] unfolding dir_items_def by blast
  moreover have "all_notes st2 = all_notes st @ map (render destDir sourceDir) ?items2"
    using run2 dir_items_all [of dst] unfolding dir_items_def by blast
  ultimately show "\<exists>st2 items1 items2.
      checkDir destDir dst sourceDir src st = (Return (), st2) \<and>
      all_notes st1 = all_notes st @ map (render sourceDir destDir) items1 \<and>
      all_notes st2 = all_notes st @ map (render destDir sourceDir) items2 \<and>
      set items1 = set items2"
    using run2 eq by blast
next
  assume "\<exists>n. fst (checkDir sourceDir src destDir dst st) = Exit n"
  then obtain n where ex: "fst (checkDir sourceDir src destDir dst st) = Exit n"
    by blast
  show "\<exists>n. fst (checkDir destDir dst sourceDir src st) = Exit n"
  proof (cases "fst (checkDir destDir dst sourceDir src st)")
    case (Exit k)
    then show ?thesis by blast
  next
    case (Return u)
    then have "fst (checkDir destDir dst sourceDir src st) = Return ()"
      by simp
    with assms sym_dir_all [of dst]
    have "fst (checkDir sourceDir src destDir dst st) = Return ()"
      unfolding sym_dir_def by blast
    with ex show ?thesis by simp
  qed
qed

theorem checkDir_symmetric_witness:
  "distinct_names (Dir [Entry ''x'' (File (regular_file []))]) \<and>
   distinct_names (Dir [Entry ''x'' (Dir [])]) \<and>
   distinct_names (Unlistable ''permission denied'') \<and>
   checkDir ''s'' (Dir [Entry ''x'' (File (regular_file []))])
       ''d'' (Dir [Entry ''x'' (Dir [])]) empty_state =
     (Return (),
      empty_state\<lparr>all_notes := [msg_types (filepath_Join ''s'' ''x'') (filepath_Join ''d'' ''x'')],
        log := [IO ReadDir ''d'' None, IO ReadDir ''s'' None,
                Println (msg_types (filepath_Join ''s'' ''x'') (filepath_Join ''d'' ''x''))]\<rparr>) \<and>
   (\<exists>st2 items1 items2.
      checkDir ''d'' (Dir [Entry ''x'' (Dir [])])
        ''s'' (Dir [Entry ''x'' (File (regular_file []))]) empty_state = (Return (), st2) \<and>
      [msg_types (filepath_Join ''s'' ''x'') (filepath_Join ''d'' ''x'')] =
        map (render ''s'' ''d'') items1 \<and>
      all_notes st2 = map (render ''d'' ''s'') items2 \<and>
      set items1 = set items2) \<and>
   fst (checkDir ''s'' (Dir [Entry ''x'' (Dir [])])
          ''d'' (Unlistable ''permission denied'') empty_state) = Exit 4 \<and>
   (\<exists>n. fst (checkDir ''d'' (Unlistable ''permission denied'')
               ''s'' (Dir [Entry ''x'' (Dir [])]) empty_state) = Exit n)"
proof -
  let ?src = "Dir [Entry ''x'' (File (regular_file []))]"
  let ?dst = "Dir [Entry ''x'' (Dir [])]"
  let ?bad = "Unlistable ''permission denied''"
  let ?msg = "msg_types (filepath_Join ''s'' ''x'') (filepath_Join ''d'' ''x'')"
  have 1: "distinct_names ?src" and 2: "distinct_names ?dst" and 3: "distinct_names ?bad"
    by simp_all
  have run: "checkDir ''s'' ?src ''d'' ?dst empty_state =
     (Return (),
      empty_state\<lparr>all_notes := [?msg],
        log := [IO ReadDir ''d'' None, IO ReadDir ''s'' None, Println ?msg]\<rparr>)"
    by (simp add: checkDir.simps checkDir_body.simps readDirIntoMap_def os_ReadDir_def
        record_event_def add_note_def IsDir_def empty_state_def Let_def)
  have stop: "fst (checkDir ''s'' ?dst ''d'' ?bad empty_state) = Exit 4"
    by (simp add: checkDir.simps readDirIntoMap_def os_ReadDir_def reportErrorAndExit_def
        exitStatusOtherErrors_def)
  show ?thesis
    using 1 2 3 run stop
      checkDir_symmetric [OF 1 2, of "''s''" "''d''" empty_state]
      checkDir_symmetric [OF 2 3, of "''s''" "''d''" empty_state]
    by simp
qed

section \<open>A walk over a pair that cannot be listed\<close>

lemma exit_status_ok_mono:
  "exit_status_ok c n \<Longrightarrow> (c' \<Longrightarrow> c) \<Longrightarrow> exit_status_ok c' n"
  by (auto simp: exit_status_ok_def)

lemma exit_status_ok_other [simp]: "exit_status_ok c exitStatusOtherErrors"
  by (simp add: exit_status_ok_def)

lemma no_read_errors_entry_target: "no_read_errors_entry e = no_read_errors (target e)"
  by (cases e) simp

lemma readLoop_exit_aux:
  "length (unread f1) = k \<Longrightarrow> fst (readLoop f1 f2 st) = Exit n \<Longrightarrow>
   n = 1 \<and> (hread_err f1 \<noteq> None \<or> hread_err f2 \<noteq> None)"
proof (induction k arbitrary: f1 f2 st rule: less_induct)
  case (less k)
  obtain b1 n1 err1 f1' st1 where
    r1: "file_Read f1 (make_bytes chunkSize) st = ((b1, n1, err1, f1'), st1)"
    by (metis prod_cases4 surj_pair)
  obtain b2 n2 err2 f2' st2 where
    r2: "file_Read f2 (make_bytes chunkSize) st1 = ((b2, n2, err2, f2'), st2)"
    by (metis prod_cases4 surj_pair)
  have h: "hread_err f1' = hread_err f1" "hread_err f2' = hread_err f2"
    using r1 r2 file_Read_hread_err by blast+
  show ?case
  proof (cases "err1 = None \<and> err2 = None \<and> b1 = b2")
    case True
    have "length (unread f1') < length (unread f1)"
      using r1 True file_Read_advances make_bytes_chunkSize by blast
    moreover from True less.prems(2) have "fst (readLoop f1' f2' st2) = Exit n"
      by (subst (asm) readLoop.simps) (simp add: r1 r2)
    ultimately have "n = 1 \<and> (hread_err f1' \<noteq> None \<or> hread_err f2' \<noteq> None)"
      using less by blast
    with h show ?thesis by simp
  next
    case False
    with less.prems(2) have n: "n = 1" and e: "err1 \<noteq> Some EOF" "err2 \<noteq> Some EOF"
      and "err1 \<noteq> None \<or> err2 \<noteq> None"
      by (subst (asm) readLoop.simps, auto simp: r1 r2 split: if_splits)+
    then consider e1 where "err1 = Some (OSError e1)" | e2 where "err2 = Some (OSError e2)"
      by (cases err1; cases err2) (auto intro: error.exhaust)
    then have "hread_err f1 \<noteq> None \<or> hread_err f2 \<noteq> None"
    proof cases
      case 1
      with r1 show ?thesis using file_Read_error by fastforce
    next
      case 2
      with r2 show ?thesis using file_Read_error by fastforce
    qed
    with n show ?thesis by simp
  qed
qed

lemma IsFileContentIdentical_exit:
  assumes "fst (IsFileContentIdentical file1 (File f1) file2 (File f2) st) = Exit n"
  shows "exit_status_ok (read_err f1 = None \<and> read_err f2 = None) n"
proof -
  let ?h1 = "\<lparr>hname = file1, unread = content f1, hsizes = read_sizes f1,
              hread_err = read_err f1, hclose_err = close_err f1\<rparr>"
  let ?h2 = "\<lparr>hname = file2, unread = content f2, hsizes = read_sizes f2,
              hread_err = read_err f2, hclose_err = close_err f2\<rparr>"
  let ?st2 = "record_event (IO Open file2 None) (record_event (IO Open file1 None) st)"
  show ?thesis
  proof (cases "open_err f1 = None \<and> open_err f2 = None")
    case False
    with assms have "n = exitStatusOtherErrors"
      by (auto simp: IsFileContentIdentical_def os_Open_def reportErrorAndExit_def
          split: option.splits)
    then show ?thesis by simp
  next
    case True
    obtain r3 st3 where l: "readLoop ?h1 ?h2 ?st2 = (r3, st3)"
      by (cases "readLoop ?h1 ?h2 ?st2")
    show ?thesis
    proof (cases r3)
      case (Exit k)
      with assms True l have "n = k"
        by (simp add: IsFileContentIdentical_def os_Open_def)
      moreover from l Exit have "k = 1 \<and> (hread_err ?h1 \<noteq> None \<or> hread_err ?h2 \<noteq> None)"
        using readLoop_exit_aux [of ?h1 _ ?h2 ?st2 k] by simp
      ultimately show ?thesis
        by (auto simp: exit_status_ok_def)
    next
      case (Return res)
      with assms True l have "n = exitStatusOtherErrors"
        by (auto simp: IsFileContentIdentical_def os_Open_def file_Close_def
            reportErrorAndExit_def split: option.splits)
      then show ?thesis by simp
    qed
  qed
qed

lemma loop_status:
  assumes "\<forall>e \<in> set es. body_status e"
    and "fst (checkDir_loop a b m es st) = Exit n"
  shows "exit_status_ok
     (list_all no_read_errors_entry es \<and> (\<forall>k d. m k = Some d \<longrightarrow> no_read_errors_entry d)) n"
  using assms
proof (induction es arbitrary: st)
  case Nil
  then show ?case by simp
next
  case (Cons e es)
  obtain r1 st1 where b: "checkDir_body a b m e st = (r1, st1)"
    by (cases "checkDir_body a b m e st")
  show ?case
  proof (cases r1)
    case (Exit k)
    with Cons.prems b have "fst (checkDir_body a b m e st) = Exit n" by simp
    moreover from Cons.prems have "body_status e" by simp
    ultimately have "exit_status_ok
        (no_read_errors_entry e \<and> (\<forall>k d. m k = Some d \<longrightarrow> no_read_errors_entry d)) n"
      unfolding body_status_def by blast
    then show ?thesis
      by (rule exit_status_ok_mono) simp
  next
    case (Return u)
    with Cons.prems b have "fst (checkDir_loop a b m es st1) = Exit n" by simp
    moreover from Cons.prems have "\<forall>e \<in> set es. body_status e" by simp
    ultimately have "exit_status_ok
        (list_all no_read_errors_entry es \<and> (\<forall>k d. m k = Some d \<longrightarrow> no_read_errors_entry d)) n"
      by (rule Cons.IH [rotated])
    then show ?thesis
      by (rule exit_status_ok_mono) simp
  qed
qed

lemma dir_status_aux:
  assumes "\<And>es e. src = Dir es \<Longrightarrow> e \<in> set es \<Longrightarrow> body_status e"
  shows "dir_status src"
  unfolding dir_status_def
proof (intro allI impI)
  fix a b dst st n
  assume run: "fst (checkDir a src b dst st) = Exit n"
  show "exit_status_ok (no_read_errors src \<and> no_read_errors dst) n"
  proof (cases "\<exists>ds es. dst = Dir ds \<and> src = Dir es")
    case False
    with run have "n = exitStatusOtherErrors"
      by (cases dst; cases src)
        (auto simp: checkDir.simps readDirIntoMap_def os_ReadDir_def reportErrorAndExit_def)
    then show ?thesis by simp
  next
    case True
    then obtain ds es where d: "dst = Dir ds" and s: "src = Dir es" by blast
    let ?st2 = "record_event (IO ReadDir a None) (record_event (IO ReadDir b None) st)"
    have "\<forall>e \<in> set es. body_status e"
      using assms s by blast
    moreover from run d s have "fst (checkDir_loop a b (entries_map ds) es ?st2) = Exit n"
      by (simp add: checkDir.simps readDirIntoMap_def os_ReadDir_def entries_map_def)
    ultimately have "exit_status_ok
        (list_all no_read_errors_entry es \<and>
         (\<forall>k d. entries_map ds k = Some d \<longrightarrow> no_read_errors_entry d)) n"
      by (rule loop_status)
    then show ?thesis
    proof (rule exit_status_ok_mono)
      assume "no_read_errors src \<and> no_read_errors dst"
      with d s have "list_all no_read_errors_entry es" "list_all no_read_errors_entry ds"
        by simp_all
      then show "list_all no_read_errors_entry es \<and>
         (\<forall>k d. entries_map ds k = Some d \<longrightarrow> no_read_errors_entry d)"
        using entries_map_Some by (fastforce simp: list_all_iff)
    qed
  qed
qed

lemma body_status_Entry:
  assumes "dir_status t"
  shows "body_status (Entry x t)"
  unfolding body_status_def
proof (intro allI impI)
  fix a b and m :: "string \<rightharpoonup> entry" and st n
  let ?e = "Entry x t"
  let ?clean = "no_read_errors_entry ?e \<and> (\<forall>k d. m k = Some d \<longrightarrow> no_read_errors_entry d)"
  assume run: "fst (checkDir_body a b m ?e st) = Exit n"
  show "exit_status_ok ?clean n"
  proof (cases "m x")
    case None
    with run show ?thesis by (simp add: checkDir_body.simps)
  next
    case (Some d)
    let ?sp = "filepath_Join a x" and ?dp = "filepath_Join b (Name d)"
    show ?thesis
    proof (cases "IsDir ?e \<and> IsDir d")
      case True
      with run Some have "fst (checkDir ?sp t ?dp (target d) st) = Exit n"
        by (simp add: checkDir_body.simps)
      with assms have "exit_status_ok (no_read_errors t \<and> no_read_errors (target d)) n"
        unfolding dir_status_def by blast
      then show ?thesis
      proof (rule exit_status_ok_mono)
        assume ?clean
        with Some show "no_read_errors t \<and> no_read_errors (target d)"
          by (auto simp: no_read_errors_entry_target)
      qed
    next
      case nb: False
      show ?thesis
      proof (cases "IsDir ?e \<noteq> IsDir d")
        case True
        with run Some show ?thesis
          by (auto simp: checkDir_body.simps Let_def)
      next
        case False
        with nb obtain sf df where t: "t = File sf" and d: "target d = File df"
          by (cases t; cases "target d") (auto simp: IsDir_def)
        obtain r3 st3 where c: "IsFileContentIdentical ?sp (File sf) ?dp (File df)
            (record_event (IO Info ?dp None) (record_event (IO Info ?sp None) st)) = (r3, st3)"
          by (metis surj_pair)
        show ?thesis
        proof (cases "info_err sf = None \<and> info_err df = None \<and> Size sf = Size df")
          case False
          with run Some nb t d have "n = exitStatusOtherErrors"
            by (auto simp: checkDir_body.simps Let_def IsDir_def entry_Info_def
                reportErrorAndExit_def split: option.splits if_splits)
          then show ?thesis by simp
        next
          case True
          with run Some nb t d c have "r3 = Exit n"
            by (cases r3)
              (auto simp: checkDir_body.simps Let_def IsDir_def entry_Info_def split: if_splits)
          with c have "fst (IsFileContentIdentical ?sp (File sf) ?dp (File df)
              (record_event (IO Info ?dp None) (record_event (IO Info ?sp None) st))) = Exit n"
            by simp
          then have "exit_status_ok (read_err sf = None \<and> read_err df = None) n"
            by (rule IsFileContentIdentical_exit)
          then show ?thesis
          proof (rule exit_status_ok_mono)
            assume ?clean
            then have "no_read_errors t" "no_read_errors (target d)"
              using Some by (simp_all add: no_read_errors_entry_target)
            with t d show "read_err sf = None \<and> read_err df = None"
              by simp
          qed
        qed
      qed
    qed
  qed
qed

lemma dir_status_all: "dir_status src"
  by (induction src rule: node.induct [where ?P2.0 = body_status])
    (auto intro: dir_status_aux body_status_Entry)

lemma loop_aborts:
  assumes "\<forall>e \<in> set es. body_aborts e"
    and "list_ex (\<lambda>e. entry_meets_unlistable e m) es"
  shows "\<exists>n. fst (checkDir_loop a b m es st) = Exit n"
  using assms
proof (induction es arbitrary: st)
  case Nil
  then show ?case by simp
next
  case (Cons e es)
  obtain r1 st1 where b: "checkDir_body a b m e st = (r1, st1)"
    by (cases "checkDir_body a b m e st")
  show ?case
  proof (cases r1)
    case (Exit k)
    with b show ?thesis by simp
  next
    case (Return u)
    have "\<not> entry_meets_unlistable e m"
    proof
      assume "entry_meets_unlistable e m"
      moreover from Cons.prems have "body_aborts e" by simp
      ultimately obtain n where "fst (checkDir_body a b m e st) = Exit n"
        unfolding body_aborts_def by blast
      with b Return show False by simp
    qed
    with Cons.prems have "list_ex (\<lambda>e. entry_meets_unlistable e m) es" by simp
    moreover from Cons.prems have "\<forall>e \<in> set es. body_aborts e" by simp
    ultimately have "\<exists>n. fst (checkDir_loop a b m es st1) = Exit n"
      by (rule Cons.IH [rotated])
    with b Return show ?thesis by simp
  qed
qed

lemma dir_aborts_aux:
  assumes "\<And>es e. src = Dir es \<Longrightarrow> e \<in> set es \<Longrightarrow> body_aborts e"
  shows "dir_aborts src"
  unfolding dir_aborts_def
proof (intro allI impI)
  fix a b dst st
  assume m: "meets_unlistable src dst"
  show "\<exists>n. fst (checkDir a src b dst st) = Exit n"
  proof (cases "\<exists>ds es. dst = Dir ds \<and> src = Dir es")
    case False
    then show ?thesis
      by (cases dst; cases src)
        (auto simp: checkDir.simps readDirIntoMap_def os_ReadDir_def reportErrorAndExit_def)
  next
    case True
    then obtain ds es where d: "dst = Dir ds" and s: "src = Dir es" by blast
    let ?st2 = "record_event (IO ReadDir a None) (record_event (IO ReadDir b None) st)"
    have "\<forall>e \<in> set es. body_aborts e"
      using assms s by blast
    moreover from m d s have "list_ex (\<lambda>e. entry_meets_unlistable e (entries_map ds)) es"
      by simp
    ultimately have "\<exists>n. fst (checkDir_loop a b (entries_map ds) es ?st2) = Exit n"
      by (rule loop_aborts)
    with d s show ?thesis
      by (simp add: checkDir.simps readDirIntoMap_def os_ReadDir_def entries_map_def)
  qed
qed

lemma body_aborts_Entry:
  assumes "dir_aborts t"
  shows "body_aborts (Entry x t)"
  unfolding body_aborts_def
proof (intro allI impI)
  fix a b m st
  assume "entry_meets_unlistable (Entry x t) m"
  then obtain d where d: "m x = Some d" and dirs: "IsDir (Entry x t) \<and> IsDir d"
    and u: "meets_unlistable t (target d)"
    by (auto split: option.splits)
  from u assms obtain n where
    "fst (checkDir (filepath_Join a x) t (filepath_Join b (Name d)) (target d) st) = Exit n"
    unfolding dir_aborts_def by blast
  with d dirs show "\<exists>n. fst (checkDir_body a b m (Entry x t) st) = Exit n"
    by (simp add: checkDir_body.simps)
qed

lemma dir_aborts_all: "dir_aborts src"
  by (induction src rule: node.induct [where ?P2.0 = body_aborts])
    (auto intro: dir_aborts_aux body_aborts_Entry)

lemma faultless_entry_target: "faultless_entry e = faultless (target e)"
  by (cases e) simp

lemma IsFileContentIdentical_returns:
  assumes "readable f1" and "readable f2"
  shows "\<exists>res. fst (IsFileContentIdentical file1 (File f1) file2 (File f2) st) = Return res"
proof -
  let ?h1 = "\<lparr>hname = file1, unread = content f1, hsizes = read_sizes f1,
              hread_err = read_err f1, hclose_err = close_err f1\<rparr>"
  let ?h2 = "\<lparr>hname = file2, unread = content f2, hsizes = read_sizes f2,
              hread_err = read_err f2, hclose_err = close_err f2\<rparr>"
  let ?st2 = "record_event (IO Open file2 None) (record_event (IO Open file1 None) st)"
  obtain r3 st3 where l: "readLoop ?h1 ?h2 ?st2 = (r3, st3)"
    by (cases "readLoop ?h1 ?h2 ?st2")
  show ?thesis
  proof (cases r3)
    case (Exit k)
    with l have "hread_err ?h1 \<noteq> None \<or> hread_err ?h2 \<noteq> None"
      using readLoop_exit_aux [of ?h1 _ ?h2 ?st2 k] by simp
    with assms show ?thesis by (simp add: readable_def)
  next
    case (Return res)
    with assms l show ?thesis
      by (simp add: IsFileContentIdentical_def os_Open_def file_Close_def readable_def)
  qed
qed

lemma body_log:
  "checkDir_body a b m e st = (r, st') \<Longrightarrow> \<exists>evs. log st' = log st @ evs"
  using body_extends_all [of e] unfolding body_extends_def
  by (metis extend_simps(2) prod.inject)

lemma loop_log:
  "checkDir_loop a b m es st = (r, st') \<Longrightarrow> \<exists>evs. log st' = log st @ evs"
proof (induction es arbitrary: st)
  case Nil
  then show ?case by simp
next
  case (Cons e es)
  obtain r1 st1 where b: "checkDir_body a b m e st = (r1, st1)"
    by (cases "checkDir_body a b m e st")
  then obtain evs1 where l1: "log st1 = log st @ evs1"
    using body_log by blast
  show ?case
  proof (cases r1)
    case (Exit k)
    with Cons.prems b l1 show ?thesis by auto
  next
    case (Return u)
    with Cons.prems b have "checkDir_loop a b m es st1 = (r, st')" by simp
    then obtain evs2 where "log st' = log st1 @ evs2"
      using Cons.IH by blast
    with l1 show ?thesis by simp
  qed
qed

lemma loop_faults:
  assumes "\<forall>e \<in> set es. body_faults e"
    and "list_all faultless_entry es" and "\<forall>k d. m k = Some d \<longrightarrow> faultless_entry d"
    and "checkDir_loop a b m es st = (Exit n, st')"
  shows "list_ex listing_failed (drop (length (log st)) (log st'))"
  using assms
proof (induction es arbitrary: st)
  case Nil
  then show ?case by simp
next
  case (Cons e es)
  obtain r1 st1 where b: "checkDir_body a b m e st = (r1, st1)"
    by (cases "checkDir_body a b m e st")
  show ?case
  proof (cases r1)
    case (Exit k)
    with Cons.prems b have "checkDir_body a b m e st = (Exit n, st')" by simp
    moreover from Cons.prems have "body_faults e" "faultless_entry e" by simp_all
    ultimately show ?thesis
      using Cons.prems(3) unfolding body_faults_def by blast
  next
    case (Return u)
    from b obtain evs1 where l1: "log st1 = log st @ evs1"
      using body_log by blast
    from Cons.prems b Return have l: "checkDir_loop a b m es st1 = (Exit n, st')" by simp
    then obtain evs2 where l2: "log st' = log st1 @ evs2"
      using loop_log by blast
    from Cons.prems have "\<forall>e \<in> set es. body_faults e" "list_all faultless_entry es"
      by simp_all
    then have "list_ex listing_failed (drop (length (log st1)) (log st'))"
      using Cons.prems(3) l by (rule Cons.IH)
    with l1 l2 show ?thesis
      by (auto simp: list_ex_iff)
  qed
qed

lemma dir_faults_aux:
  assumes "\<And>es e. src = Dir es \<Longrightarrow> e \<in> set es \<Longrightarrow> body_faults e"
  shows "dir_faults src"
  unfolding dir_faults_def
proof (intro allI impI)
  fix a b dst st n st'
  assume fs: "faultless src" and fd: "faultless dst"
    and run: "checkDir a src b dst st = (Exit n, st')"
  show "list_ex listing_failed (drop (length (log st)) (log st'))"
  proof (cases "\<exists>ds es. dst = Dir ds \<and> src = Dir es")
    case False
    with run show ?thesis
      by (cases dst; cases src)
        (auto simp: checkDir.simps readDirIntoMap_def os_ReadDir_def reportErrorAndExit_def
          record_event_def)
  next
    case True
    then obtain ds es where d: "dst = Dir ds" and s: "src = Dir es" by blast
    let ?st2 = "record_event (IO ReadDir a None) (record_event (IO ReadDir b None) st)"
    from run d s have l: "checkDir_loop a b (entries_map ds) es ?st2 = (Exit n, st')"
      by (simp add: checkDir.simps readDirIntoMap_def os_ReadDir_def entries_map_def)
    then obtain evs where e: "log st' = log ?st2 @ evs"
      using loop_log by blast
    have "\<forall>e \<in> set es. body_faults e"
      using assms s by blast
    moreover from fs s have "list_all faultless_entry es" by simp
    moreover from fd d have "\<forall>k d. entries_map ds k = Some d \<longrightarrow> faultless_entry d"
      using entries_map_Some by (fastforce simp: list_all_iff)
    ultimately have "list_ex listing_failed (drop (length (log ?st2)) (log st'))"
      using l by (rule loop_faults)
    with e show ?thesis
      by (auto simp: record_event_def list_ex_iff)
  qed
qed

lemma body_faults_Entry:
  assumes "dir_faults t"
  shows "body_faults (Entry x t)"
  unfolding body_faults_def
proof (intro allI impI)
  fix a b and m :: "string \<rightharpoonup> entry" and st n st'
  let ?e = "Entry x t"
  assume fe: "faultless_entry ?e" and fm: "\<forall>k d. m k = Some d \<longrightarrow> faultless_entry d"
    and run: "checkDir_body a b m ?e st = (Exit n, st')"
  show "list_ex listing_failed (drop (length (log st)) (log st'))"
  proof (cases "m x")
    case None
    with run show ?thesis by (simp add: checkDir_body.simps)
  next
    case (Some d)
    let ?sp = "filepath_Join a x" and ?dp = "filepath_Join b (Name d)"
    from fm Some have fd: "faultless (target d)"
      by (simp add: faultless_entry_target)
    from fe have ft: "faultless t" by simp
    show ?thesis
    proof (cases "IsDir ?e \<and> IsDir d")
      case True
      with run Some have "checkDir ?sp t ?dp (target d) st = (Exit n, st')"
        by (simp add: checkDir_body.simps)
      with assms ft fd show ?thesis
        unfolding dir_faults_def by blast
    next
      case nb: False
      show ?thesis
      proof (cases "IsDir ?e \<noteq> IsDir d")
        case True
        with run Some show ?thesis
          by (auto simp: checkDir_body.simps Let_def)
      next
        case False
        with nb obtain sf df where t: "t = File sf" and d: "target d = File df"
          by (cases t; cases "target d") (auto simp: IsDir_def)
        let ?st2 = "record_event (IO Info ?dp None) (record_event (IO Info ?sp None) st)"
        from ft fd t d have ok: "info_err sf = None" "info_err df = None"
          "readable sf" "readable df"
          by simp_all
        then obtain res where "fst (IsFileContentIdentical ?sp (File sf) ?dp (File df) ?st2) =
            Return res"
          using IsFileContentIdentical_returns by blast
        then obtain st3 where
          "IsFileContentIdentical ?sp (File sf) ?dp (File df) ?st2 = (Return res, st3)"
          by (cases "IsFileContentIdentical ?sp (File sf) ?dp (File df) ?st2") simp
        with run Some nb t d ok have False
          by (auto simp: checkDir_body.simps Let_def IsDir_def entry_Info_def split: if_splits)
        then show ?thesis ..
      qed
    qed
  qed
qed

lemma dir_faults_all: "dir_faults src"
  by (induction src rule: node.induct [where ?P2.0 = body_faults])
    (auto intro: dir_faults_aux body_faults_Entry)



section \<open>Examples\<close>

text \<open>
  \<^verbatim>\<open>filepath.Join\<close> on a plain directory path, on the current directory, on a path
  with a trailing separator, on the root, and on a path with a \<^verbatim>\<open>..\<close> element.
\<close>

lemma example_filepath_Join:
  "filepath_Join ''src'' ''b.txt'' = ''src/b.txt''"
  "filepath_Join ''.'' ''x'' = ''x''"
  "filepath_Join ''src/'' ''x'' = ''src/x''"
  "filepath_Join ''/'' ''x'' = ''/x''"
  "filepath_Join ''a/../b'' ''x'' = ''b/x''"
  "filepath_Join ''../a'' ''x'' = ''../a/x''"
  by (simp_all add: filepath_Join_def filepath_Clean_def)

text \<open>
  A source tree with an empty directory \<open>a\<close> and a file \<open>b.txt\<close> holding ``hello'',
  against a destination tree with an empty directory \<open>a\<close> and a file \<open>b.txt\<close> holding
  ``howdy'': the verdict is unsafe, with the one note that the contents of the two
  files differ.
\<close>

lemma example_content_mismatch:
  "fst (precopyCheck
     ''src'' (Dir [Entry ''a'' (Dir []),
                   Entry ''b.txt'' (File (regular_file [104, 101, 108, 108, 111]))])
     ''dst'' (Dir [Entry ''a'' (Dir []),
                   Entry ''b.txt'' (File (regular_file [104, 111, 119, 100, 121]))])
     empty_state) =
     Exit exitStatusCopyUnsafe \<and>
   all_notes (snd (precopyCheck
     ''src'' (Dir [Entry ''a'' (Dir []),
                   Entry ''b.txt'' (File (regular_file [104, 101, 108, 108, 111]))])
     ''dst'' (Dir [Entry ''a'' (Dir []),
                   Entry ''b.txt'' (File (regular_file [104, 111, 119, 100, 121]))])
     empty_state)) =
     [msg_content ''src/b.txt'' ''dst/b.txt'']"
  by (simp add: precopyCheck_def checkDir.simps checkDir_body.simps readDirIntoMap_def
      os_ReadDir_def entry_Info_def IsDir_def record_event_def add_note_def
      IsFileContentIdentical_def os_Open_def regular_file_def readLoop.simps
      file_Read_def read_limit_def file_Close_def make_bytes_def chunkSize_def Let_def
      empty_state_def filepath_Join_def filepath_Clean_def)

text \<open>
  Two colliding non-directories that report the same size and deliver contents of
  different lengths (two symbolic links with link texts of seven characters, to a file
  holding the byte 97 and to a file holding the bytes 97, 0): the content comparison is
  run, it finds no difference, and the verdict is safe.
\<close>

lemma example_unequal_lengths_pass:
  "fst (precopyCheck
     ''src'' (Dir [Entry ''x'' (File ((regular_file [97])\<lparr>Size := 7\<rparr>))])
     ''dst'' (Dir [Entry ''x'' (File ((regular_file [97, 0])\<lparr>Size := 7\<rparr>))])
     empty_state) =
   Return ()"
  by (simp add: precopyCheck_def checkDir.simps checkDir_body.simps readDirIntoMap_def
      os_ReadDir_def entry_Info_def IsDir_def record_event_def add_note_def
      IsFileContentIdentical_def os_Open_def regular_file_def readLoop.simps
      file_Read_def read_limit_def file_Close_def make_bytes_def chunkSize_def Let_def
      empty_state_def zero_tail)

text \<open>
  Two colliding files with the same two bytes, of which the source delivers one byte to
  its first read: the content comparison finds a difference that is not there, and the
  verdict is unsafe.
\<close>

lemma example_short_read_alarm:
  "fst (precopyCheck
     ''src'' (Dir [Entry ''x'' (File ((regular_file [97, 98])\<lparr>read_sizes := [1]\<rparr>))])
     ''dst'' (Dir [Entry ''x'' (File (regular_file [97, 98]))])
     empty_state) =
   Exit exitStatusCopyUnsafe"
  by (simp add: precopyCheck_def checkDir.simps checkDir_body.simps readDirIntoMap_def
      os_ReadDir_def entry_Info_def IsDir_def record_event_def add_note_def
      IsFileContentIdentical_def os_Open_def regular_file_def readLoop.simps
      file_Read_def read_limit_def file_Close_def make_bytes_def chunkSize_def Let_def
      empty_state_def zero_tail)

end
